theory Spec2Isabelle
  imports Main "HOL-Library.Multiset"
begin

section \<open>Constants and data of the game (TetrisCanvas.jsx)\<close>

text \<open>
  The playfield is a JavaScript array of row arrays. A cell is \<open>null\<close> or a colour
  string; \<open>None\<close> stands for \<open>null\<close> (and for \<open>undefined\<close>, which a read past
  the end of a row yields: both are falsy). A matrix entry is a number, falsy iff it is 0.
\<close>

definition COLS :: int where "COLS = 10"
definition ROWS :: int where "ROWS = 20"

text \<open>
  \<open>TypeError\<close> is the JavaScript exception. \<open>SparseRow\<close> is no exception of the
  program: it marks a run that leaves the grids this model has. An assignment past the
  end of a row array leaves holes in it, which \<open>every\<close> skips and which a list of cells
  cannot hold; such a run ends here with \<open>SparseRow\<close>, and nothing is said about what
  follows it. Every row the program builds has COLS cells, and the assignments are to
  columns below COLS.
\<close>

datatype error = TypeError | SparseRow

text \<open>The piece kinds. \<open>O'\<close> is the kind O (the plain name is taken by relation composition).\<close>

datatype kind = I | O' | T | S | Z | J | L

type_synonym cell = "string option"
type_synonym grid = "cell list list"
type_synonym matrix = "int list list"

record piece =
  x :: int
  y :: int
  m :: matrix
  c :: string
  k :: kind

text \<open>JavaScript truthiness of a cell: \<open>null\<close> and the empty string are falsy.\<close>

definition truthy :: "cell \<Rightarrow> bool" where
  "truthy v = (case v of None \<Rightarrow> False | Some s \<Rightarrow> s \<noteq> [])"

text \<open>
  The read \<open>b[ny][nx]\<close> for non-negative indices: a missing row is \<open>undefined\<close>, and
  indexing it throws a TypeError; a missing cell of an existing row is \<open>undefined\<close>.
\<close>

definition cell_at :: "grid \<Rightarrow> nat \<Rightarrow> nat \<Rightarrow> error + cell" where
  "cell_at b ny nx =
     (if ny < length b
      then Inr (if nx < length (b ! ny) then b ! ny ! nx else None)
      else Inl TypeError)"

section \<open>collides\<close>

text \<open>
  The inner loop of \<open>collides\<close> over the entries of one matrix row, from column
  \<open>nx\<close> of the grid on. \<open>Inr True\<close> is the early \<open>return true\<close>; \<open>Inr False\<close>
  means the row ended without a collision.
\<close>

fun collides_row :: "grid \<Rightarrow> int \<Rightarrow> int \<Rightarrow> int list \<Rightarrow> error + bool" where
  "collides_row b nx ny [] = Inr False"
| "collides_row b nx ny (v # vs) =
     (if v = 0 then collides_row b (nx + 1) ny vs
      else if nx < 0 \<or> nx \<ge> COLS \<or> ny \<ge> ROWS then Inr True
      else if ny \<ge> 0 then
        (case cell_at b (nat ny) (nat nx) of
           Inl e \<Rightarrow> Inl e
         | Inr v' \<Rightarrow> if truthy v' then Inr True else collides_row b (nx + 1) ny vs)
      else collides_row b (nx + 1) ny vs)"

text \<open>The outer loop over the matrix rows, from grid row \<open>ny\<close> on.\<close>

fun collides_rows :: "grid \<Rightarrow> int \<Rightarrow> int \<Rightarrow> matrix \<Rightarrow> error + bool" where
  "collides_rows b px ny [] = Inr False"
| "collides_rows b px ny (r # rs) =
     (case collides_row b px ny r of
        Inl e \<Rightarrow> Inl e
      | Inr hit \<Rightarrow> if hit then Inr True else collides_rows b px (ny + 1) rs)"

definition collides :: "grid \<Rightarrow> piece \<Rightarrow> error + bool" where
  "collides b p = collides_rows b (x p) (y p) (m p)"

text \<open>The grid cell at a row and column is filled: it exists and is truthy.\<close>

definition filled_at :: "grid \<Rightarrow> int \<Rightarrow> int \<Rightarrow> bool" where
  "filled_at b ny nx =
     (0 \<le> ny \<and> 0 \<le> nx \<and> nat ny < length b \<and> nat nx < length (b ! nat ny)
      \<and> truthy (b ! nat ny ! nat nx))"

text \<open>The collision condition of one cell at absolute grid coordinates.\<close>

definition cell_hits :: "grid \<Rightarrow> int \<Rightarrow> int \<Rightarrow> bool" where
  "cell_hits b ny nx =
     (nx < 0 \<or> nx \<ge> COLS \<or> ny \<ge> ROWS \<or> (ny \<ge> 0 \<and> filled_at b ny nx))"

text \<open>The occupied cells of a piece, as absolute (row, column) pairs.\<close>

definition occupied :: "piece \<Rightarrow> (int \<times> int) set" where
  "occupied p =
     {(y p + int i, x p + int j) | i j.
        i < length (m p) \<and> j < length (m p ! i) \<and> m p ! i ! j \<noteq> 0}"

section \<open>clearLines\<close>

definition emptyBoard :: "int \<Rightarrow> int \<Rightarrow> grid" where
  "emptyBoard r c' = replicate (nat r) (replicate (nat c') None)"

text \<open>The loop \<open>while (nb.length < ROWS) nb.unshift(Array(COLS).fill(null))\<close>.\<close>

function unshift_loop :: "grid \<Rightarrow> grid" where
  "unshift_loop nb =
     (if int (length nb) < ROWS then unshift_loop (replicate (nat COLS) None # nb) else nb)"
  by pat_completeness auto
termination
  by (relation "measure (\<lambda>nb. nat ROWS - length nb)") auto

text \<open>
  \<open>clearLines\<close>: the first loop reads \<open>b[y]\<close> for every \<open>y < ROWS\<close>, so a grid with
  fewer rows throws (\<open>undefined.every\<close>). With no full row the input is returned as it
  is; otherwise the rows whose index was recorded are filtered out and the result is
  padded at the top.
\<close>

definition clearLines :: "grid \<Rightarrow> error + (grid \<times> nat)" where
  "clearLines b =
     (if int (length b) < ROWS then Inl TypeError
      else
        let rows = filter (\<lambda>y. list_all truthy (b ! y)) [0..<nat ROWS] in
        if rows = [] then Inr (b, 0)
        else
          let nb = map snd (filter (\<lambda>(y, r). y \<notin> set rows) (zip [0..<length b] b))
          in Inr (unshift_loop nb, length rows))"

text \<open>A row is full iff every cell in it is filled.\<close>

definition full :: "cell list \<Rightarrow> bool" where
  "full r = (\<forall>v \<in> set r. truthy v)"

section \<open>Rotation helpers\<close>

text \<open>
  The read \<open>m[y][x]\<close> of a matrix entry inside the loops of the rotation helpers, where
  \<open>y\<close> is below the number of rows. Past the end of a shorter row JavaScript yields
  \<open>undefined\<close>; the program only ever tests matrix entries for truthiness, and
  \<open>undefined\<close> is falsy like 0, so the model reads 0 there.
\<close>

definition mread :: "matrix \<Rightarrow> nat \<Rightarrow> nat \<Rightarrow> int" where
  "mread mat i j = (if j < length (mat ! i) then mat ! i ! j else 0)"

text \<open>
  \<open>rotateMatrixCW\<close>: \<open>m[0].length\<close> throws on a matrix without rows. The result starts
  as \<open>w\<close> rows of \<open>h\<close> zeros and the two nested loops assign
  \<open>res[x][h - 1 - y] = m[y][x]\<close>.
\<close>

definition rotateMatrixCW :: "matrix \<Rightarrow> error + matrix" where
  "rotateMatrixCW mat =
     (case mat of
        [] \<Rightarrow> Inl TypeError
      | r0 # _ \<Rightarrow>
          let h = length mat; w = length r0;
              res = replicate w (replicate h 0)
          in Inr (fold (\<lambda>i res.
                     fold (\<lambda>j res. res[j := (res ! j)[h - 1 - i := mread mat i j]])
                       [0..<w] res)
                   [0..<h] res))"

text \<open>\<open>rotateMatrixCCW\<close>: the same with \<open>res[w - 1 - x][y] = m[y][x]\<close>.\<close>

definition rotateMatrixCCW :: "matrix \<Rightarrow> error + matrix" where
  "rotateMatrixCCW mat =
     (case mat of
        [] \<Rightarrow> Inl TypeError
      | r0 # _ \<Rightarrow>
          let h = length mat; w = length r0;
              res = replicate w (replicate h 0)
          in Inr (fold (\<lambda>i res.
                     fold (\<lambda>j res. res[w - 1 - j := (res ! (w - 1 - j))[i := mread mat i j]])
                       [0..<w] res)
                   [0..<h] res))"

text \<open>A matrix of \<open>h\<close> rows, all of width \<open>w\<close>.\<close>

definition rect :: "matrix \<Rightarrow> nat \<Rightarrow> nat \<Rightarrow> bool" where
  "rect mat h w = (length mat = h \<and> list_all (\<lambda>r. length r = w) mat)"

text \<open>
  The entries of the two rotations of a matrix of \<open>h\<close> rows and \<open>w\<close> columns,
  written out: row \<open>j\<close> of the clockwise rotation is column \<open>j\<close> read from the
  bottom up, row \<open>r\<close> of the counter-clockwise one is column \<open>w - 1 - r\<close> read
  from the top down.
\<close>

definition cw_form :: "matrix \<Rightarrow> nat \<Rightarrow> nat \<Rightarrow> matrix" where
  "cw_form mat h w = map (\<lambda>j. map (\<lambda>t. mat ! (h - 1 - t) ! j) [0..<h]) [0..<w]"

definition ccw_form :: "matrix \<Rightarrow> nat \<Rightarrow> nat \<Rightarrow> matrix" where
  "ccw_form mat h w = map (\<lambda>r. map (\<lambda>t. mat ! t ! (w - 1 - r)) [0..<h]) [0..<w]"

text \<open>Transpose, then reverse each row.\<close>

definition transpose_reverse_rows :: "matrix \<Rightarrow> matrix" where
  "transpose_reverse_rows mat = map rev (transpose mat)"

section \<open>Shapes and the bag\<close>

text \<open>\<open>TETROMINOES\<close>: the matrix \<open>m\<close> and the colour \<open>c\<close> of each kind.\<close>

fun TETROMINOES :: "kind \<Rightarrow> matrix \<times> string" where
  "TETROMINOES I = ([[1, 1, 1, 1]], ''#00FFFF'')"
| "TETROMINOES O' = ([[1, 1], [1, 1]], ''#F7D154'')"
| "TETROMINOES T = ([[0, 1, 0], [1, 1, 1]], ''#B57AD2'')"
| "TETROMINOES S = ([[0, 1, 1], [1, 1, 0]], ''#57D98C'')"
| "TETROMINOES Z = ([[1, 1, 0], [0, 1, 1]], ''#F26D6D'')"
| "TETROMINOES J = ([[1, 0, 0], [1, 1, 1]], ''#6DA8F2'')"
| "TETROMINOES L = ([[0, 0, 1], [1, 1, 1]], ''#F2A96D'')"

definition ORDER :: "kind list" where
  "ORDER = [I, O', T, S, Z, J, L]"

text \<open>
  \<open>bag\<close>: the shuffle loop \<open>for (let i = b.length - 1; i > 0; i--)\<close>. The argument
  \<open>rnd\<close> is the entropy source: \<open>rnd i\<close> is the value of
  \<open>Math.floor(Math.random() * (i + 1))\<close> in the iteration with index \<open>i\<close>.
  \<open>Math.random()\<close> lies in [0, 1), so \<open>rnd i \<le> i\<close>. The destructuring swap reads
  both entries before it writes.
\<close>

fun bag_loop :: "(nat \<Rightarrow> nat) \<Rightarrow> nat \<Rightarrow> kind list \<Rightarrow> kind list" where
  "bag_loop rnd 0 b = b"
| "bag_loop rnd (Suc n) b =
     (let i = Suc n; j = rnd i
      in bag_loop rnd n (b[i := b ! j, j := b ! i]))"

definition bag :: "(nat \<Rightarrow> nat) \<Rightarrow> kind list" where
  "bag rnd = bag_loop rnd (length ORDER - 1) ORDER"

text \<open>The draws of an entropy source are in range.\<close>

definition in_range :: "(nat \<Rightarrow> nat) \<Rightarrow> bool" where
  "in_range rnd = (\<forall>i. rnd i \<le> i)"

section \<open>Game state\<close>

text \<open>
  The React state of the component. A handler reads the state of the render that created
  it (its closure) and queues setter calls; the model applies them to a state in the
  order in which React does. The setters of \<open>spawn\<close> are called inside the updater it
  passes to \<open>setActive\<close>; wherever \<open>spawn\<close> is called after another setter of the same
  handler, that updater runs at the next render, after all setter calls of the handler.
  Only in \<open>doHold\<close> does a setter call follow the call of \<open>spawn\<close> in the program
  text. The timing refs (\<open>accRef\<close>, \<open>lastTimeRef\<close>) are not part of the state;
  \<open>accRef.current = 0\<close> of \<open>spawn\<close> is in the updater too, so it does not end the
  gravity loop of the frame that calls \<open>stepDown\<close>.
\<close>

record state =
  board :: grid
  active :: "piece option"
  queue :: "kind list"
  nextBag :: "kind list"
  running :: bool
  score :: nat
  lines :: nat
  level :: nat
  hold :: "kind option"
  canHold :: bool

fun getTopOffset_loop :: "matrix \<Rightarrow> nat \<Rightarrow> nat" where
  "getTopOffset_loop [] i = 0"
| "getTopOffset_loop (r # rs) i =
     (if list_ex (\<lambda>v. v \<noteq> 0) r then i else getTopOffset_loop rs (i + 1))"

definition getTopOffset :: "matrix \<Rightarrow> nat" where
  "getTopOffset mat = getTopOffset_loop mat 0"

text \<open>
  The piece built from a kind at its spawn position, as \<open>spawn\<close> (lines 222-226) and
  the swap branch of \<open>doHold\<close> (lines 369-373) both do: a copy of the shape's matrix,
  \<open>startX = Math.floor((COLS - m[0].length) / 2)\<close>, \<open>startY = -getTopOffset(m)\<close>.
  Every shape has a first row.
\<close>

definition spawn_piece :: "kind \<Rightarrow> piece" where
  "spawn_piece kd =
     (let shape = TETROMINOES kd;
          mat = fst shape;
          startX = (COLS - int (length (mat ! 0))) div 2;
          startY = - int (getTopOffset mat)
      in \<lparr>x = startX, y = startY, m = mat, c = snd shape, k = kd\<rparr>)"

text \<open>
  \<open>spawn\<close>. The updater passed to \<open>setActive\<close> reads \<open>queue\<close>, \<open>nextBag\<close> and
  \<open>board\<close> from the closure of the render in which \<open>spawn\<close> was created: the first
  state argument is that snapshot, the second the state the setters act on. An empty
  queue makes \<open>head\<close> undefined and \<open>shape.m\<close> throw.
\<close>

definition spawn :: "(nat \<Rightarrow> nat) \<Rightarrow> state \<Rightarrow> state \<Rightarrow> error + state" where
  "spawn rnd snap s =
     (case queue snap of
        [] \<Rightarrow> Inl TypeError
      | head # rest \<Rightarrow>
          let q = (if rest = [] then nextBag snap else rest);
              s1 = (if rest = [] then s\<lparr>nextBag := bag rnd\<rparr> else s);
              s2 = s1\<lparr>queue := q\<rparr>;
              pc = spawn_piece head
          in case collides (board snap) pc of
               Inl e \<Rightarrow> Inl e
             | Inr hit \<Rightarrow>
                 let s3 = (if hit then s2\<lparr>running := False\<rparr> else s2)
                 in Inr (s3\<lparr>canHold := True, active := Some pc\<rparr>))"

section \<open>mergePiece, on values\<close>

text \<open>
  The assignment \<open>row[nx] = v\<close>. Past the end of the row JavaScript extends the array
  and leaves holes in between: the run leaves the model (\<open>SparseRow\<close>).
\<close>

definition set_index :: "cell list \<Rightarrow> nat \<Rightarrow> cell \<Rightarrow> error + cell list" where
  "set_index row nx v =
     (if nx < length row then Inr (row[nx := v]) else Inl SparseRow)"

text \<open>The assignment \<open>nb[ny][nx] = v\<close>: a missing row is \<open>undefined\<close> and the write throws.\<close>

definition write_cell :: "grid \<Rightarrow> nat \<Rightarrow> nat \<Rightarrow> cell \<Rightarrow> error + grid" where
  "write_cell nb ny nx v =
     (if ny < length nb then
        (case set_index (nb ! ny) nx v of
           Inl e \<Rightarrow> Inl e
         | Inr row \<Rightarrow> Inr (nb[ny := row]))
      else Inl TypeError)"

fun mergePiece_row :: "grid \<Rightarrow> string \<Rightarrow> int \<Rightarrow> int \<Rightarrow> int list \<Rightarrow> error + grid" where
  "mergePiece_row nb col nx ny [] = Inr nb"
| "mergePiece_row nb col nx ny (v # vs) =
     (if v = 0 then mergePiece_row nb col (nx + 1) ny vs
      else if ny \<ge> 0 \<and> ny < ROWS \<and> nx \<ge> 0 \<and> nx < COLS then
        (case write_cell nb (nat ny) (nat nx) (Some col) of
           Inl e \<Rightarrow> Inl e
         | Inr nb' \<Rightarrow> mergePiece_row nb' col (nx + 1) ny vs)
      else mergePiece_row nb col (nx + 1) ny vs)"

fun mergePiece_rows :: "grid \<Rightarrow> string \<Rightarrow> int \<Rightarrow> int \<Rightarrow> matrix \<Rightarrow> error + grid" where
  "mergePiece_rows nb col px ny [] = Inr nb"
| "mergePiece_rows nb col px ny (r # rs) =
     (case mergePiece_row nb col px ny r of
        Inl e \<Rightarrow> Inl e
      | Inr nb' \<Rightarrow> mergePiece_rows nb' col px (ny + 1) rs)"

text \<open>
  \<open>mergePiece\<close> on grid values: \<open>cloneBoard\<close> copies every row, which on values is the
  identity. The section on the store below models the copy and the writes on arrays with
  identity.
\<close>

definition cloneBoard :: "grid \<Rightarrow> grid" where
  "cloneBoard b = map (\<lambda>row. row) b"

definition mergePiece :: "grid \<Rightarrow> piece \<Rightarrow> error + grid" where
  "mergePiece b p = mergePiece_rows (cloneBoard b) (c p) (x p) (y p) (m p)"

section \<open>Actions\<close>

text \<open>\<open>scoreFor\<close> reads \<open>level\<close> from the closure: the first argument.\<close>

definition scoreFor :: "nat \<Rightarrow> nat \<Rightarrow> nat" where
  "scoreFor lvl n =
     (if n = 1 then 100 * lvl
      else if n = 2 then 300 * lvl
      else if n = 3 then 500 * lvl
      else if n \<ge> 4 then 800 * lvl
      else 0)"

text \<open>
  The lock sequence, the same statements in \<open>stepDown\<close> (lines 299-307) and in
  \<open>hardDrop\<close> (lines 331-339): merge the piece into the closure's board, clear lines,
  \<open>setBoard\<close>, and when rows were cleared \<open>setLines(v => v + cleared)\<close>,
  \<open>setScore(s => s + scoreFor(cleared))\<close> and
  \<open>setLevel(1 + Math.floor((lines + cleared) / 10))\<close> with the closure's \<open>lines\<close>;
  then \<open>spawn(true)\<close>.
\<close>

definition lock :: "(nat \<Rightarrow> nat) \<Rightarrow> state \<Rightarrow> state \<Rightarrow> piece \<Rightarrow> error + state" where
  "lock rnd snap s p =
     (case mergePiece (board snap) p of
        Inl e \<Rightarrow> Inl e
      | Inr merged \<Rightarrow>
          (case clearLines merged of
             Inl e \<Rightarrow> Inl e
           | Inr (clearedBoard, cleared) \<Rightarrow>
               let s1 = s\<lparr>board := clearedBoard\<rparr>;
                   s2 = (if cleared > 0
                         then s1\<lparr>lines := lines s1 + cleared,
                                 score := score s1 + scoreFor (level snap) cleared,
                                 level := 1 + (lines snap + cleared) div 10\<rparr>
                         else s1)
               in spawn rnd snap s2))"

text \<open>
  \<open>stepDown\<close>: the first state is the closure's, which \<open>active\<close>, \<open>board\<close>,
  \<open>lines\<close> and \<open>level\<close> are read from, the second the state the setters act on. A call
  on the state of the render that created the handler is \<open>stepDown rnd s s\<close>.
\<close>

definition stepDown :: "(nat \<Rightarrow> nat) \<Rightarrow> state \<Rightarrow> state \<Rightarrow> error + state" where
  "stepDown rnd snap s =
     (case active snap of
        None \<Rightarrow> Inr s
      | Some a \<Rightarrow>
          let next = a\<lparr>y := y a + 1\<rparr>
          in case collides (board snap) next of
               Inl e \<Rightarrow> Inl e
             | Inr hit \<Rightarrow>
                 if \<not> hit then Inr (s\<lparr>active := Some next\<rparr>)
                 else lock rnd snap s a)"

text \<open>
  The gravity loop of a frame (lines 123-128): \<open>dropMs\<close> is computed from the closure's
  \<open>level\<close>, and \<open>while (accRef.current >= dropMs)\<close> subtracts it and calls
  \<open>stepDown()\<close>, every call on the closure of the same render. Times are whole
  milliseconds here. The entropy source of the call with number \<open>n\<close> is \<open>rnds n\<close>. The
  result is the state after the queued setters and what is left in \<open>accRef\<close> by the loop.
\<close>

definition DROP_BASE_MS :: int where "DROP_BASE_MS = 1000"

definition dropMs :: "state \<Rightarrow> int" where
  "dropMs snap = max 100 (DROP_BASE_MS - (int (level snap) - 1) * 75)"

function gravity_loop ::
  "(nat \<Rightarrow> nat \<Rightarrow> nat) \<Rightarrow> state \<Rightarrow> int \<Rightarrow> nat \<Rightarrow> state \<Rightarrow> error + state \<times> int" where
  "gravity_loop rnds snap acc n s =
     (if acc \<ge> dropMs snap then
        (case stepDown (rnds n) snap s of
           Inl e \<Rightarrow> Inl e
         | Inr s' \<Rightarrow> gravity_loop rnds snap (acc - dropMs snap) (n + 1) s')
      else Inr (s, acc))"
  by pat_completeness auto
termination
  by (relation "measure (\<lambda>(rnds, snap, acc, n, s). nat acc)") (auto simp: dropMs_def)

definition softDrop :: "state \<Rightarrow> error + state" where
  "softDrop s =
     (case active s of
        None \<Rightarrow> Inr s
      | Some a \<Rightarrow>
          let next = a\<lparr>y := y a + 1\<rparr>
          in case collides (board s) next of
               Inl e \<Rightarrow> Inl e
             | Inr hit \<Rightarrow>
                 if \<not> hit then Inr (s\<lparr>active := Some next, score := score s + 1\<rparr>)
                 else Inr s)"

text \<open>
  The loop of \<open>hardDrop\<close>,
  \<open>while (!collides(board, {...ghost, y: ghost.y + 1})) { ghost.y++; dist++; }\<close>.
  Nothing bounds it for a piece without an occupied cell, so it is a partial function:
  \<open>None\<close> is the loop that never ends.
\<close>

partial_function (option) hardDrop_loop ::
  "grid \<Rightarrow> piece \<Rightarrow> nat \<Rightarrow> (error + piece \<times> nat) option" where
  "hardDrop_loop b ghost dist =
     (case collides b (ghost\<lparr>y := y ghost + 1\<rparr>) of
        Inl e \<Rightarrow> Some (Inl e)
      | Inr hit \<Rightarrow>
          if \<not> hit then hardDrop_loop b (ghost\<lparr>y := y ghost + 1\<rparr>) (dist + 1)
          else Some (Inr (ghost, dist)))"

declare hardDrop_loop.simps [code]

definition hardDrop :: "(nat \<Rightarrow> nat) \<Rightarrow> state \<Rightarrow> (error + state) option" where
  "hardDrop rnd s =
     (case active s of
        None \<Rightarrow> Some (Inr s)
      | Some a \<Rightarrow>
          (case hardDrop_loop (board s) a 0 of
             None \<Rightarrow> None
           | Some (Inl e) \<Rightarrow> Some (Inl e)
           | Some (Inr (ghost, dist)) \<Rightarrow>
               Some (lock rnd s (s\<lparr>active := Some ghost, score := score s + dist * 2\<rparr>) ghost)))"

text \<open>The loop of \<open>rotate\<close> over the kicks, with its early return.\<close>

fun rotate_kicks :: "grid \<Rightarrow> piece \<Rightarrow> matrix \<Rightarrow> int list \<Rightarrow> error + piece option" where
  "rotate_kicks b a rotated [] = Inr None"
| "rotate_kicks b a rotated (dx # kicks) =
     (let test = a\<lparr>m := rotated, x := x a + dx\<rparr>
      in case collides b test of
           Inl e \<Rightarrow> Inl e
         | Inr hit \<Rightarrow>
             if \<not> hit then Inr (Some test) else rotate_kicks b a rotated kicks)"

definition kicks :: "int list" where
  "kicks = [0, -1, 1, -2, 2]"

text \<open>
  \<open>rotate\<close> (named \<open>rotate_piece\<close> here: the plain name is a list function).
  The rotated matrix is computed before the loop; the closure's \<open>active\<close> is kept when
  every kick collides.
\<close>

definition rotate_piece :: "(matrix \<Rightarrow> error + matrix) \<Rightarrow> state \<Rightarrow> error + state" where
  "rotate_piece rotFn s =
     (case active s of
        None \<Rightarrow> Inr s
      | Some a \<Rightarrow>
          (case rotFn (m a) of
             Inl e \<Rightarrow> Inl e
           | Inr rotated \<Rightarrow>
               (case rotate_kicks (board s) a rotated kicks of
                  Inl e \<Rightarrow> Inl e
                | Inr None \<Rightarrow> Inr s
                | Inr (Some test) \<Rightarrow> Inr (s\<lparr>active := Some test\<rparr>))))"

definition rotateCW :: "state \<Rightarrow> error + state" where
  "rotateCW s = rotate_piece rotateMatrixCW s"

definition rotateCCW :: "state \<Rightarrow> error + state" where
  "rotateCCW s = rotate_piece rotateMatrixCCW s"

text \<open>
  \<open>doHold\<close>. With an empty slot the held kind is stored and a piece is spawned: the
  updater of \<open>spawn\<close> runs after the handler's \<open>setCanHold(false)\<close>, so its
  \<open>setCanHold(true)\<close> is the last word. Otherwise the kinds are swapped and the piece of
  the held kind is set as the active piece, with no call of \<open>collides\<close> and no
  \<open>setRunning\<close>.
\<close>

definition doHold :: "(nat \<Rightarrow> nat) \<Rightarrow> state \<Rightarrow> error + state" where
  "doHold rnd s =
     (if \<not> canHold s then Inr s
      else case active s of
        None \<Rightarrow> Inr s
      | Some a \<Rightarrow>
          (case hold s of
             None \<Rightarrow> spawn rnd s (s\<lparr>hold := Some (k a), canHold := False\<rparr>)
           | Some newK \<Rightarrow>
               Inr (s\<lparr>hold := Some (k a), active := Some (spawn_piece newK),
                       canHold := False\<rparr>)))"

definition tryMove :: "int \<Rightarrow> int \<Rightarrow> matrix \<Rightarrow> state \<Rightarrow> error + state" where
  "tryMove dx dy mat s =
     (case active s of
        None \<Rightarrow> Inr s
      | Some a \<Rightarrow>
          let test = a\<lparr>x := x a + dx, y := y a + dy, m := mat\<rparr>
          in case collides (board s) test of
               Inl e \<Rightarrow> Inl e
             | Inr hit \<Rightarrow> if \<not> hit then Inr (s\<lparr>active := Some test\<rparr>) else Inr s)"

text \<open>
  \<open>reset\<close> is memoised with no dependencies, so the \<open>spawn\<close> it calls is the one of the
  first render: \<open>init\<close> is that render's state. The three entropy sources are those of
  the two \<open>bag()\<close> calls and of the spawn.
\<close>

definition reset ::
  "(nat \<Rightarrow> nat) \<Rightarrow> (nat \<Rightarrow> nat) \<Rightarrow> (nat \<Rightarrow> nat) \<Rightarrow> state \<Rightarrow> state \<Rightarrow> error + state" where
  "reset rnd1 rnd2 rnd3 init s =
     spawn rnd3 init
       (s\<lparr>board := emptyBoard ROWS COLS, queue := bag rnd1, nextBag := bag rnd2,
          active := None, score := 0, lines := 0, level := 1, hold := None,
          canHold := True, running := True\<rparr>)"

text \<open>The keys \<open>onKey\<close> tells apart (\<open>e.code\<close>); \<open>OtherKey\<close> is any other code.\<close>

datatype key =
  KeyP | KeyR | ArrowLeft | ArrowRight | ArrowDown | Space | ArrowUp | KeyX | KeyZ
  | ShiftLeft | ShiftRight | KeyC | OtherKey

text \<open>
  The keyboard handler \<open>onKey\<close>, in the order of its tests: nothing without an active
  piece; P toggles \<open>running\<close>; R resets; every other key needs \<open>running\<close>.
\<close>

definition onKey ::
  "(nat \<Rightarrow> nat) \<Rightarrow> (nat \<Rightarrow> nat) \<Rightarrow> (nat \<Rightarrow> nat) \<Rightarrow> state \<Rightarrow> key \<Rightarrow> state
     \<Rightarrow> (error + state) option" where
  "onKey rnd1 rnd2 rnd3 init e s =
     (case active s of
        None \<Rightarrow> Some (Inr s)
      | Some a \<Rightarrow>
          if e = KeyP then Some (Inr (s\<lparr>running := \<not> running s\<rparr>))
          else if e = KeyR then Some (reset rnd1 rnd2 rnd3 init s)
          else if \<not> running s then Some (Inr s)
          else if e = ArrowLeft then Some (tryMove (-1) 0 (m a) s)
          else if e = ArrowRight then Some (tryMove 1 0 (m a) s)
          else if e = ArrowDown then Some (softDrop s)
          else if e = Space then hardDrop rnd3 s
          else if e = ArrowUp \<or> e = KeyX then Some (rotateCW s)
          else if e = KeyZ then Some (rotateCCW s)
          else if e = ShiftLeft \<or> e = ShiftRight \<or> e = KeyC then Some (doHold rnd3 s)
          else Some (Inr s))"

text \<open>
  The status the overlay shows: nothing while \<open>running\<close>; otherwise "Paused" when there
  is an active piece and "Game Over" when there is none.
\<close>

datatype status = Running | Paused | GameOver

definition status_of :: "state \<Rightarrow> status" where
  "status_of s = (if running s then Running else if active s \<noteq> None then Paused else GameOver)"

section \<open>mergePiece, on a store\<close>

text \<open>
  Arrays have identity: \<open>cloneBoard\<close> allocates new row arrays and \<open>mergePiece\<close>
  assigns into them. The store is a list of objects, an address is an index into it, and
  allocation appends. A grid is the address of an outer array of row addresses.
\<close>

datatype obj = Outer "nat list" | Cells "cell list"

type_synonym heap = "obj list"

definition alloc :: "heap \<Rightarrow> obj \<Rightarrow> nat \<times> heap" where
  "alloc h ob = (length h, h @ [ob])"

definition deref :: "heap \<Rightarrow> nat \<Rightarrow> obj option" where
  "deref h a = (if a < length h then Some (h ! a) else None)"

text \<open>The callback \<open>row => row.slice()\<close> of \<open>cloneBoard\<close>, mapped over the rows.\<close>

fun cloneRows_h :: "heap \<Rightarrow> nat list \<Rightarrow> error + (nat list \<times> heap)" where
  "cloneRows_h h [] = Inr ([], h)"
| "cloneRows_h h (r # rs) =
     (case deref h r of
        Some (Cells cs) \<Rightarrow>
          (case alloc h (Cells cs) of
             (a, h1) \<Rightarrow>
               (case cloneRows_h h1 rs of
                  Inl e \<Rightarrow> Inl e
                | Inr (as, h2) \<Rightarrow> Inr (a # as, h2)))
      | _ \<Rightarrow> Inl TypeError)"

definition cloneBoard_h :: "heap \<Rightarrow> nat \<Rightarrow> error + (nat \<times> heap)" where
  "cloneBoard_h h b =
     (case deref h b of
        Some (Outer rs) \<Rightarrow>
          (case cloneRows_h h rs of
             Inl e \<Rightarrow> Inl e
           | Inr (as, h1) \<Rightarrow> Inr (alloc h1 (Outer as)))
      | _ \<Rightarrow> Inl TypeError)"

text \<open>The assignment \<open>nb[ny][nx] = v\<close> on the store: only the row array is written.\<close>

definition write_cell_h :: "heap \<Rightarrow> nat \<Rightarrow> nat \<Rightarrow> nat \<Rightarrow> cell \<Rightarrow> error + heap" where
  "write_cell_h h nb ny nx v =
     (case deref h nb of
        Some (Outer rs) \<Rightarrow>
          if ny < length rs then
            (case deref h (rs ! ny) of
               Some (Cells cs) \<Rightarrow>
                 (case set_index cs nx v of
                    Inl e \<Rightarrow> Inl e
                  | Inr row \<Rightarrow> Inr (h[rs ! ny := Cells row]))
             | _ \<Rightarrow> Inl TypeError)
          else Inl TypeError
      | _ \<Rightarrow> Inl TypeError)"

fun mergePiece_row_h :: "heap \<Rightarrow> nat \<Rightarrow> string \<Rightarrow> int \<Rightarrow> int \<Rightarrow> int list \<Rightarrow> error + heap" where
  "mergePiece_row_h h nb col nx ny [] = Inr h"
| "mergePiece_row_h h nb col nx ny (v # vs) =
     (if v = 0 then mergePiece_row_h h nb col (nx + 1) ny vs
      else if ny \<ge> 0 \<and> ny < ROWS \<and> nx \<ge> 0 \<and> nx < COLS then
        (case write_cell_h h nb (nat ny) (nat nx) (Some col) of
           Inl e \<Rightarrow> Inl e
         | Inr h' \<Rightarrow> mergePiece_row_h h' nb col (nx + 1) ny vs)
      else mergePiece_row_h h nb col (nx + 1) ny vs)"

fun mergePiece_rows_h :: "heap \<Rightarrow> nat \<Rightarrow> string \<Rightarrow> int \<Rightarrow> int \<Rightarrow> matrix \<Rightarrow> error + heap" where
  "mergePiece_rows_h h nb col px ny [] = Inr h"
| "mergePiece_rows_h h nb col px ny (r # rs) =
     (case mergePiece_row_h h nb col px ny r of
        Inl e \<Rightarrow> Inl e
      | Inr h' \<Rightarrow> mergePiece_rows_h h' nb col px (ny + 1) rs)"

text \<open>\<open>mergePiece\<close> on the store: the address of the new grid and the store after it.\<close>

definition mergePiece_h :: "heap \<Rightarrow> nat \<Rightarrow> piece \<Rightarrow> error + (nat \<times> heap)" where
  "mergePiece_h h b p =
     (case cloneBoard_h h b of
        Inl e \<Rightarrow> Inl e
      | Inr (nb, h1) \<Rightarrow>
          (case mergePiece_rows_h h1 nb (c p) (x p) (y p) (m p) of
             Inl e \<Rightarrow> Inl e
           | Inr h2 \<Rightarrow> Inr (nb, h2)))"

text \<open>The address holds a grid: an outer array whose entries are addresses of row arrays.\<close>

definition is_grid :: "heap \<Rightarrow> nat \<Rightarrow> bool" where
  "is_grid h b =
     (case deref h b of
        Some (Outer rs) \<Rightarrow>
          list_all (\<lambda>r. case deref h r of Some (Cells cs) \<Rightarrow> True | _ \<Rightarrow> False) rs
      | _ \<Rightarrow> False)"

text \<open>The contents of the grid at an address: what reading it cell by cell yields.\<close>

definition grid_of :: "heap \<Rightarrow> nat \<Rightarrow> grid" where
  "grid_of h b =
     (case deref h b of
        Some (Outer rs) \<Rightarrow> map (\<lambda>r. case deref h r of Some (Cells cs) \<Rightarrow> cs | _ \<Rightarrow> []) rs
      | _ \<Rightarrow> [])"

text \<open>A grid value of ROWS rows of COLS cells.\<close>

definition wf_grid :: "grid \<Rightarrow> bool" where
  "wf_grid g = (int (length g) = ROWS \<and> list_all (\<lambda>r. int (length r) = COLS) g)"

text \<open>The grid \<open>g'\<close> is \<open>g\<close> with the cells selected by \<open>P\<close> set to the colour.\<close>

definition painted :: "(nat \<Rightarrow> nat \<Rightarrow> bool) \<Rightarrow> string \<Rightarrow> grid \<Rightarrow> grid \<Rightarrow> bool" where
  "painted P col g g' =
     (length g' = length g
      \<and> (\<forall>i<length g. length (g' ! i) = length (g ! i)
            \<and> (\<forall>j<length (g ! i). g' ! i ! j = (if P i j then Some col else g ! i ! j))))"


text \<open>The store \<open>h\<close> extended by the rows of \<open>g\<close> and by the outer array of their addresses.\<close>

definition with_grid :: "heap \<Rightarrow> grid \<Rightarrow> heap" where
  "with_grid h g = h @ map Cells g @ [Outer [length h..<length h + length g]]"


section \<open>Example inputs\<close>

definition full_row :: "cell list" where
  "full_row = replicate 10 (Some ''#00FFFF'')"

definition partial_row :: "cell list" where
  "partial_row = Some ''#00FFFF'' # replicate 9 None"

text \<open>A grid whose rows 3 and 7 are full and whose other rows hold one filled cell.\<close>

definition two_full_grid :: grid where
  "two_full_grid =
     replicate 3 partial_row @ [full_row] @ replicate 3 partial_row @ [full_row]
       @ replicate 12 partial_row"

text \<open>
  A running game at level 3 with 28 cleared lines: rows 18 and 19 are filled but for
  their two leftmost cells, and the O piece rests in that gap.
\<close>

definition lock_state :: state where
  "lock_state =
     \<lparr>board = replicate 18 (replicate 10 None)
                @ replicate 2 (replicate 2 None @ replicate 8 (Some ''#00FFFF'')),
      active = Some ((spawn_piece O')\<lparr>x := 0, y := 18\<rparr>),
      queue = [T, I, S, Z, J, L], nextBag = ORDER, running = True,
      score = 1000, lines = 28, level = 3, hold = None, canHold = True\<rparr>"

text \<open>An empty grid with the vertical I piece (the I matrix rotated once) in column 8.\<close>

definition kick_state :: state where
  "kick_state =
     \<lparr>board = emptyBoard ROWS COLS,
      active = Some \<lparr>x = 8, y = 0, m = [[1], [1], [1], [1]], c = ''#00FFFF'', k = I\<rparr>,
      queue = [T, O', S, Z, J, L], nextBag = ORDER, running = True,
      score = 0, lines = 0, level = 1, hold = None, canHold = True\<rparr>"

text \<open>The same with the vertical I piece flush against the right wall, in column 9.\<close>

definition wall_state :: state where
  "wall_state =
     \<lparr>board = emptyBoard ROWS COLS,
      active = Some \<lparr>x = 9, y = 0, m = [[1], [1], [1], [1]], c = ''#00FFFF'', k = I\<rparr>,
      queue = [T, O', S, Z, J, L], nextBag = ORDER, running = True,
      score = 0, lines = 0, level = 1, hold = None, canHold = True\<rparr>"

text \<open>A fresh game whose queue starts with the O piece; no piece is spawned yet.\<close>

definition o_start :: state where
  "o_start =
     \<lparr>board = emptyBoard ROWS COLS, active = None,
      queue = [O', I, T, S, Z, J, L], nextBag = ORDER, running = True,
      score = 0, lines = 0, level = 1, hold = None, canHold = True\<rparr>"

text \<open>The grid after the O piece was dropped from its spawn position onto the empty grid.\<close>

definition o_board :: grid where
  "o_board =
     replicate 18 (replicate 10 None)
       @ replicate 2 (replicate 4 None @ replicate 2 (Some ''#F7D154'') @ replicate 4 None)"

text \<open>The four cells of the bottom-left and of the bottom-centre 2x2 region are filled.\<close>

definition bottom_left_2x2 :: "grid \<Rightarrow> bool" where
  "bottom_left_2x2 g =
     (filled_at g 18 0 \<and> filled_at g 18 1 \<and> filled_at g 19 0 \<and> filled_at g 19 1)"

definition bottom_centre_2x2 :: "grid \<Rightarrow> bool" where
  "bottom_centre_2x2 g =
     (filled_at g 18 4 \<and> filled_at g 18 5 \<and> filled_at g 19 4 \<and> filled_at g 19 5)"

text \<open>
  A running game whose stack reaches the top row in columns 4 and 5; the T piece sits at
  its spawn position and cannot move down, the I piece is next, and the I kind is held.
\<close>

definition over_state :: state where
  "over_state =
     \<lparr>board = replicate 20 (replicate 4 None @ replicate 2 (Some ''#F7D154'') @ replicate 4 None),
      active = Some (spawn_piece T),
      queue = [I, S, Z, J, L], nextBag = ORDER, running = True,
      score = 0, lines = 0, level = 1, hold = Some I, canHold = True\<rparr>"

text \<open>The states after the spawn of the O piece from \<open>o_start\<close> and after its hard drop.\<close>

definition o_spawned :: state where
  "o_spawned =
     \<lparr>board = emptyBoard ROWS COLS, active = Some (spawn_piece O'),
      queue = [I, T, S, Z, J, L], nextBag = ORDER, running = True,
      score = 0, lines = 0, level = 1, hold = None, canHold = True\<rparr>"

definition o_dropped :: state where
  "o_dropped =
     \<lparr>board = o_board, active = Some (spawn_piece I),
      queue = [T, S, Z, J, L], nextBag = ORDER, running = True,
      score = 36, lines = 0, level = 1, hold = None, canHold = True\<rparr>"


text \<open>After the lock of \<open>over_state\<close> the I piece is spawned into the stack.\<close>

definition over_locked :: state where
  "over_locked =
     \<lparr>board = [replicate 4 None @ [Some ''#B57AD2'', Some ''#F7D154''] @ replicate 4 None,
               replicate 3 None @ replicate 3 (Some ''#B57AD2'') @ replicate 4 None]
              @ replicate 18 (replicate 4 None @ replicate 2 (Some ''#F7D154'') @ replicate 4 None),
      active = Some (spawn_piece I),
      queue = [S, Z, J, L], nextBag = ORDER, running = False,
      score = 0, lines = 0, level = 1, hold = Some I, canHold = True\<rparr>"


text \<open>A store that holds the empty grid: its twenty rows, then the outer array at address 20.\<close>

definition empty_store :: heap where
  "empty_store = map Cells (emptyBoard ROWS COLS) @ [Outer [0..<20]]"


text \<open>
  The same position as \<open>lock_state\<close> at level 1 with 7 cleared lines and no score.
\<close>

definition low_state :: state where
  "low_state = lock_state\<lparr>score := 0, lines := 7, level := 1\<rparr>"

text \<open>
  A rotation of the active piece of \<open>s\<close> ended with the piece shifted left to fit: the
  result is a state whose active piece has the clockwise rotation of the matrix, the same
  row, a column that is not further right, and does not collide.
\<close>

definition shifted_left_to_fit :: "state \<Rightarrow> error + state \<Rightarrow> bool" where
  "shifted_left_to_fit s r =
     (case active s of
        None \<Rightarrow> False
      | Some a \<Rightarrow>
          (case r of
             Inl e \<Rightarrow> False
           | Inr s' \<Rightarrow>
               (case active s' of
                  None \<Rightarrow> False
                | Some a' \<Rightarrow>
                    rotateMatrixCW (m a) = Inr (m a') \<and> x a' \<le> x a \<and> y a' = y a
                    \<and> collides (board s') a' = Inr False)))"

section \<open>Properties of collides\<close>

lemma occupiedI:
  "i < length (m p) \<Longrightarrow> j < length (m p ! i) \<Longrightarrow> m p ! i ! j \<noteq> 0
     \<Longrightarrow> (y p + int i, x p + int j) \<in> occupied p"
  unfolding occupied_def by blast

lemma collides_row_char:
  assumes "int (length b) = ROWS"
  shows "collides_row b nx ny vs =
           Inr (\<exists>j<length vs. vs ! j \<noteq> 0 \<and> cell_hits b ny (nx + int j))"
  using assms
proof (induction vs arbitrary: nx)
  case Nil
  then show ?case by simp
next
  case (Cons v vs)
  have step: "collides_row b (nx + 1) ny vs =
      Inr (\<exists>j<length vs. vs ! j \<noteq> 0 \<and> cell_hits b ny (nx + int (Suc j)))"
    using Cons.IH [of "nx + 1"] Cons.prems by (simp add: ac_simps)
  have here: "cell_hits b ny nx \<longleftrightarrow>
      (nx < 0 \<or> nx \<ge> COLS \<or> ny \<ge> ROWS \<or> (ny \<ge> 0 \<and> filled_at b ny nx))"
    by (simp add: cell_hits_def)
  show ?case
  proof (cases "v = 0")
    case True
    then show ?thesis using step by (simp add: Ex_less_Suc2)
  next
    case False
    show ?thesis
    proof (cases "nx < 0 \<or> nx \<ge> COLS \<or> ny \<ge> ROWS")
      case True
      then show ?thesis using False here by (auto simp: Ex_less_Suc2)
    next
      case inb: False
      show ?thesis
      proof (cases "ny \<ge> 0")
        case True
        have rowok: "nat ny < length b" using inb True Cons.prems by linarith
        have ca: "cell_at b (nat ny) (nat nx) =
            Inr (if nat nx < length (b ! nat ny) then b ! nat ny ! nat nx else None)"
          using rowok by (simp add: cell_at_def)
        have fa: "filled_at b ny nx \<longleftrightarrow>
            truthy (if nat nx < length (b ! nat ny) then b ! nat ny ! nat nx else None)"
          using rowok inb True by (auto simp: filled_at_def truthy_def)
        show ?thesis using False inb True ca fa here step
          by (auto simp: Ex_less_Suc2)
      next
        case neg: False
        then show ?thesis using \<open>v \<noteq> 0\<close> inb here step
          by (auto simp: Ex_less_Suc2)
      qed
    qed
  qed
qed

lemma collides_rows_char:
  assumes "int (length b) = ROWS"
  shows "collides_rows b px ny rs =
           Inr (\<exists>i<length rs. \<exists>j<length (rs ! i).
                  rs ! i ! j \<noteq> 0 \<and> cell_hits b (ny + int i) (px + int j))"
proof (induction rs arbitrary: ny)
  case Nil
  then show ?case by simp
next
  case (Cons r rs)
  have step: "collides_rows b px (ny + 1) rs =
      Inr (\<exists>i<length rs. \<exists>j<length (rs ! i).
             rs ! i ! j \<noteq> 0 \<and> cell_hits b (ny + int (Suc i)) (px + int j))"
    using Cons.IH [of "ny + 1"] by (simp add: ac_simps)
  show ?case
    using step by (auto simp: collides_row_char [OF assms] Ex_less_Suc2)
qed

lemma collides_occupied:
  assumes "int (length b) = ROWS"
  shows "collides b p =
           Inr (\<exists>(ny, nx) \<in> occupied p.
                  nx < 0 \<or> nx \<ge> COLS \<or> ny \<ge> ROWS \<or> (ny \<ge> 0 \<and> filled_at b ny nx))"
proof -
  have char: "collides b p =
      Inr (\<exists>i<length (m p). \<exists>j<length (m p ! i).
             m p ! i ! j \<noteq> 0 \<and> cell_hits b (y p + int i) (x p + int j))"
    by (simp add: collides_def collides_rows_char [OF assms])
  have eq: "(\<exists>i<length (m p). \<exists>j<length (m p ! i).
             m p ! i ! j \<noteq> 0 \<and> cell_hits b (y p + int i) (x p + int j))
        \<longleftrightarrow> (\<exists>(ny, nx) \<in> occupied p. cell_hits b ny nx)"
    by (auto simp: occupied_def)
  show ?thesis using char eq by (simp add: cell_hits_def)
qed

lemma collides_total:
  "int (length b) = ROWS \<Longrightarrow> \<exists>hit. collides b p = Inr hit"
  using collides_occupied by blast

text \<open>
  C1. On a grid of ROWS rows, \<open>collides\<close> returns true iff some occupied cell of the
  piece's matrix, at its absolute coordinates, has column < 0, column >= COLS, row >= ROWS,
  or has row >= 0 and a filled grid cell there. In particular a piece whose occupied cells
  all lie in rows < 0 and in columns 0..COLS-1 does not collide, whatever the grid holds.
\<close>

theorem collides_iff:
  assumes "int (length b) = ROWS"
  shows "collides b p =
           Inr (\<exists>(ny, nx) \<in> occupied p.
                  nx < 0 \<or> nx \<ge> COLS \<or> ny \<ge> ROWS \<or> (ny \<ge> 0 \<and> filled_at b ny nx))
         \<and> ((\<forall>(ny, nx) \<in> occupied p. ny < 0 \<and> 0 \<le> nx \<and> nx < COLS)
                \<longrightarrow> collides b p = Inr False)"
proof -
  note first = collides_occupied [OF assms, of p]
  have second: "collides b p = Inr False"
    if "\<forall>(ny, nx) \<in> occupied p. ny < 0 \<and> 0 \<le> nx \<and> nx < COLS"
  proof -
    from that have "\<not> (\<exists>(ny, nx) \<in> occupied p.
                  nx < 0 \<or> nx \<ge> COLS \<or> ny \<ge> ROWS \<or> (ny \<ge> 0 \<and> filled_at b ny nx))"
      by (auto simp: ROWS_def)
    then show ?thesis using first by simp
  qed
  show ?thesis using first second by blast
qed

theorem collides_iff_witness:
  "int (length ((emptyBoard ROWS COLS)[0 := replicate 10 (Some ''#00FFFF'')])) = ROWS
   \<and> collides ((emptyBoard ROWS COLS)[0 := replicate 10 (Some ''#00FFFF'')])
        ((spawn_piece T)\<lparr>x := 8\<rparr>) = Inr True
   \<and> collides ((emptyBoard ROWS COLS)[0 := replicate 10 (Some ''#00FFFF'')])
        ((spawn_piece I)\<lparr>y := -1\<rparr>) = Inr False"
proof -
  let ?b = "(emptyBoard ROWS COLS)[0 := replicate 10 (Some ''#00FFFF'')]"
  have len: "int (length ?b) = ROWS"
    by (simp add: emptyBoard_def ROWS_def)
  have occT: "(1, 10) \<in> occupied ((spawn_piece T)\<lparr>x := 8\<rparr>)"
    using occupiedI [of 1 "(spawn_piece T)\<lparr>x := 8\<rparr>" 2]
    by (simp add: spawn_piece_def Let_def getTopOffset_def)
  have hitT: "\<exists>(ny, nx) \<in> occupied ((spawn_piece T)\<lparr>x := 8\<rparr>).
      nx < 0 \<or> nx \<ge> COLS \<or> ny \<ge> ROWS \<or> (ny \<ge> 0 \<and> filled_at ?b ny nx)"
    using occT by (rule_tac x = "(1, 10)" in bexI) (simp_all add: COLS_def)
  have occI: "\<forall>(ny, nx) \<in> occupied ((spawn_piece I)\<lparr>y := -1\<rparr>).
      ny < 0 \<and> 0 \<le> nx \<and> nx < COLS"
    by (auto simp: occupied_def spawn_piece_def Let_def getTopOffset_def COLS_def)
  have cT: "collides ?b ((spawn_piece T)\<lparr>x := 8\<rparr>) = Inr True"
    using collides_iff [OF len, of "(spawn_piece T)\<lparr>x := 8\<rparr>"] hitT by simp
  have cI: "collides ?b ((spawn_piece I)\<lparr>y := -1\<rparr>) = Inr False"
    using collides_iff [OF len, of "(spawn_piece I)\<lparr>y := -1\<rparr>"] occI by blast
  show ?thesis
    using len cT cI by blast
qed

section \<open>Properties of clearLines\<close>

lemma unshift_loop_eq:
  "unshift_loop nb = replicate (nat ROWS - length nb) (replicate (nat COLS) None) @ nb"
proof (induction nb rule: unshift_loop.induct)
  case (1 nb)
  show ?case
  proof (cases "int (length nb) < ROWS")
    case True
    then have "nat ROWS - length nb = Suc (nat ROWS - Suc (length nb))" by linarith
    then show ?thesis using 1 True
      by (subst unshift_loop.simps) (simp add: replicate_app_Cons_same)
  next
    case False
    then show ?thesis by (subst unshift_loop.simps) simp
  qed
qed

lemma filter_index:
  assumes "\<And>i. i < length xs \<Longrightarrow> P i = Q (xs ! i)"
  shows "map snd (filter (\<lambda>(i, r). P i) (zip [0..<length xs] xs)) = filter Q xs"
  using assms
proof (induction xs rule: rev_induct)
  case Nil
  then show ?case by simp
next
  case (snoc a xs)
  have IH: "map snd (filter (\<lambda>(i, r). P i) (zip [0..<length xs] xs)) = filter Q xs"
    using snoc.IH snoc.prems by (metis length_append_singleton less_Suc_eq nth_append)
  have last: "P (length xs) = Q a" using snoc.prems [of "length xs"] by simp
  show ?case using IH last by simp
qed

lemma length_filter_index:
  "length (filter (\<lambda>i. Q (xs ! i)) [0..<length xs]) = length (filter Q xs)"
proof -
  have "filter Q xs = filter Q (map (\<lambda>i. xs ! i) [0..<length xs])"
    by (simp add: map_nth)
  also have "\<dots> = map (\<lambda>i. xs ! i) (filter (\<lambda>i. Q (xs ! i)) [0..<length xs])"
    by (simp add: filter_map o_def)
  finally show ?thesis by (metis length_map)
qed

lemma clearLines_char:
  assumes len: "int (length b) = ROWS"
  shows "clearLines b =
           Inr (replicate (length (filter full b)) (replicate (nat COLS) None)
                  @ filter (\<lambda>r. \<not> full r) b,
                length (filter full b))"
proof -
  define rows where "rows = filter (\<lambda>y. list_all truthy (b ! y)) [0..<nat ROWS]"
  have n: "nat ROWS = length b" using len by simp
  have full_eq: "list_all truthy = full" by (auto simp: full_def list_all_iff)
  have rows_len: "length rows = length (filter full b)"
    unfolding rows_def n full_eq by (rule length_filter_index)
  have mem: "i \<notin> set rows \<longleftrightarrow> \<not> full (b ! i)" if "i < length b" for i
    using that by (simp add: rows_def n full_eq)
  have nb: "map snd (filter (\<lambda>(y, r). y \<notin> set rows) (zip [0..<length b] b))
              = filter (\<lambda>r. \<not> full r) b"
    by (rule filter_index) (simp add: mem)
  have cnt: "length (filter (\<lambda>r. \<not> full r) b) = length b - length (filter full b)"
    using sum_length_filter_compl [of full b] by simp
  have le: "length (filter full b) \<le> length b" by simp
  show ?thesis
  proof (cases "rows = []")
    case True
    then have z: "length (filter full b) = 0" using rows_len by simp
    then have "filter full b = []" by simp
    then have "filter (\<lambda>r. \<not> full r) b = b"
      by (metis (mono_tags, lifting) filter_True filter_empty_conv)
    then show ?thesis using True len z by (simp add: clearLines_def rows_def [symmetric])
  next
    case False
    have pad: "nat ROWS - length (filter (\<lambda>r. \<not> full r) b) = length (filter full b)"
      using cnt le n by simp
    have "clearLines b =
        Inr (unshift_loop (filter (\<lambda>r. \<not> full r) b), length rows)"
      using False len by (simp add: clearLines_def rows_def [symmetric] Let_def nb)
    then show ?thesis by (simp only: unshift_loop_eq pad rows_len)
  qed
qed

lemma filter_all: "(\<And>i. i < length xs \<Longrightarrow> P (xs ! i)) \<Longrightarrow> filter P xs = xs"
  by (metis filter_True in_set_conv_nth)

lemma two_full_rows:
  assumes len: "length b = 20"
    and f3: "full (b ! 3)" and f7: "full (b ! 7)"
    and others: "\<And>i. i < 20 \<Longrightarrow> i \<noteq> 3 \<Longrightarrow> i \<noteq> 7 \<Longrightarrow> \<not> full (b ! i)"
  shows "filter (\<lambda>r. \<not> full r) b = take 3 b @ take 3 (drop 4 b) @ drop 8 b"
    and "length (filter full b) = 2"
proof -
  have split1: "b = take 3 b @ b ! 3 # drop 4 b"
    using len id_take_nth_drop [of 3 b] by simp
  have split2: "drop 4 b = take 3 (drop 4 b) @ b ! 7 # drop 8 b"
    using len id_take_nth_drop [of 3 "drop 4 b"] by simp
  have b_eq: "b = take 3 b @ b ! 3 # take 3 (drop 4 b) @ b ! 7 # drop 8 b"
    using split1 split2 by metis
  have A: "filter (\<lambda>r. \<not> full r) (take 3 b) = take 3 b"
    by (rule filter_all) (use len others in simp)
  have B: "filter (\<lambda>r. \<not> full r) (take 3 (drop 4 b)) = take 3 (drop 4 b)"
    by (rule filter_all) (use len others in simp)
  have C: "filter (\<lambda>r. \<not> full r) (drop 8 b) = drop 8 b"
    by (rule filter_all) (use len others in simp)
  have A': "filter full (take 3 b) = []"
    using A by (metis (mono_tags, lifting) filter_empty_conv filter_id_conv)
  have B': "filter full (take 3 (drop 4 b)) = []"
    using B by (metis (mono_tags, lifting) filter_empty_conv filter_id_conv)
  have C': "filter full (drop 8 b) = []"
    using C by (metis (mono_tags, lifting) filter_empty_conv filter_id_conv)
  have "filter (\<lambda>r. \<not> full r) b =
      filter (\<lambda>r. \<not> full r) (take 3 b @ b ! 3 # take 3 (drop 4 b) @ b ! 7 # drop 8 b)"
    using b_eq by simp
  then show "filter (\<lambda>r. \<not> full r) b = take 3 b @ take 3 (drop 4 b) @ drop 8 b"
    using A B C f3 f7 by simp
  have "filter full b =
      filter full (take 3 b @ b ! 3 # take 3 (drop 4 b) @ b ! 7 # drop 8 b)"
    using b_eq by simp
  then show "length (filter full b) = 2"
    using A' B' C' f3 f7 by simp
qed

text \<open>
  C2. On a grid of ROWS rows, \<open>clearLines\<close> removes exactly the full rows, all at once,
  puts as many empty rows on top, keeps the other rows in their order and returns the
  number of removed rows; with no full row it returns the input grid and 0. With rows 3
  and 7 full and no other row full, the result is two empty rows followed by the rows
  0-2, 4-6 and 8-19 of the input, in this order (the eighteen remaining rows sit two
  rows below the top), and the count is 2.
\<close>

theorem clearLines_correct:
  assumes "int (length b) = ROWS"
  shows "clearLines b =
           Inr (replicate (length (filter full b)) (replicate (nat COLS) None)
                  @ filter (\<lambda>r. \<not> full r) b,
                length (filter full b))
         \<and> ((\<forall>r \<in> set b. \<not> full r) \<longrightarrow> clearLines b = Inr (b, 0))
         \<and> (full (b ! 3) \<and> full (b ! 7)
              \<and> (\<forall>i<20. i \<noteq> 3 \<and> i \<noteq> 7 \<longrightarrow> \<not> full (b ! i))
            \<longrightarrow> clearLines b =
                 Inr (replicate 2 (replicate (nat COLS) None)
                        @ take 3 b @ take 3 (drop 4 b) @ drop 8 b, 2))"
proof -
  note char = clearLines_char [OF assms]
  have len: "length b = 20" using assms by (simp add: ROWS_def)
  have none: "clearLines b = Inr (b, 0)" if "\<forall>r \<in> set b. \<not> full r"
  proof -
    from that have "filter full b = []" by (simp add: filter_empty_conv)
    moreover from that have "filter (\<lambda>r. \<not> full r) b = b" by simp
    ultimately show ?thesis using char by simp
  qed
  have two: "clearLines b =
                 Inr (replicate 2 (replicate (nat COLS) None)
                        @ take 3 b @ take 3 (drop 4 b) @ drop 8 b, 2)"
    if "full (b ! 3) \<and> full (b ! 7) \<and> (\<forall>i<20. i \<noteq> 3 \<and> i \<noteq> 7 \<longrightarrow> \<not> full (b ! i))"
  proof -
    have "filter (\<lambda>r. \<not> full r) b = take 3 b @ take 3 (drop 4 b) @ drop 8 b"
      and "length (filter full b) = 2"
      using two_full_rows [OF len] that by blast+
    then show ?thesis using char by simp
  qed
  show ?thesis using char none two by blast
qed

lemma full_full_row: "full full_row"
  by (simp add: full_def full_row_def truthy_def)

lemma not_full_partial_row: "\<not> full partial_row"
  by (simp add: full_def partial_row_def truthy_def)

lemma two_full_grid_nth:
  "i < 20 \<Longrightarrow> two_full_grid ! i = (if i = 3 \<or> i = 7 then full_row else partial_row)"
  by (auto simp: two_full_grid_def nth_append nth_Cons')

theorem clearLines_correct_witness:
  "int (length two_full_grid) = ROWS
   \<and> clearLines two_full_grid =
       Inr (replicate 2 (replicate 10 None) @ replicate 18 partial_row, 2)
   \<and> clearLines (emptyBoard ROWS COLS) = Inr (emptyBoard ROWS COLS, 0)"
proof -
  have len: "int (length two_full_grid) = ROWS"
    by (simp add: two_full_grid_def ROWS_def)
  have hyp: "full (two_full_grid ! 3) \<and> full (two_full_grid ! 7)
      \<and> (\<forall>i<20. i \<noteq> 3 \<and> i \<noteq> 7 \<longrightarrow> \<not> full (two_full_grid ! i))"
    by (simp add: two_full_grid_nth full_full_row not_full_partial_row)
  have rest: "take 3 two_full_grid @ take 3 (drop 4 two_full_grid) @ drop 8 two_full_grid
      = replicate 18 partial_row"
    by (simp add: two_full_grid_def replicate_add [symmetric])
  have two: "clearLines two_full_grid =
       Inr (replicate 2 (replicate 10 None) @ replicate 18 partial_row, 2)"
  proof -
    have "clearLines two_full_grid =
        Inr (replicate 2 (replicate (nat COLS) None)
               @ take 3 two_full_grid @ take 3 (drop 4 two_full_grid) @ drop 8 two_full_grid, 2)"
      using clearLines_correct [OF len] hyp by blast
    then show ?thesis by (simp add: rest COLS_def)
  qed
  have len0: "int (length (emptyBoard ROWS COLS)) = ROWS"
    by (simp add: emptyBoard_def ROWS_def)
  have none: "\<forall>r \<in> set (emptyBoard ROWS COLS). \<not> full r"
    by (simp add: emptyBoard_def full_def truthy_def ROWS_def COLS_def)
  have zero: "clearLines (emptyBoard ROWS COLS) = Inr (emptyBoard ROWS COLS, 0)"
    using clearLines_correct [OF len0] none by blast
  show ?thesis using len two zero by blast
qed

section \<open>The bag is a permutation\<close>

lemma bag_loop_mset:
  assumes "\<And>i. rnd i \<le> i"
  shows "n < length b \<Longrightarrow> mset (bag_loop rnd n b) = mset b"
proof (induction n arbitrary: b)
  case 0
  then show ?case by simp
next
  case (Suc n)
  let ?b' = "b[Suc n := b ! rnd (Suc n), rnd (Suc n) := b ! Suc n]"
  have j: "rnd (Suc n) < length b" using assms [of "Suc n"] Suc.prems by linarith
  have swap: "mset ?b' = mset b"
    using mset_swap [of "rnd (Suc n)" b "Suc n"] j Suc.prems by simp
  have "mset (bag_loop rnd n ?b') = mset ?b'"
    using Suc.IH [of ?b'] Suc.prems by simp
  then show ?case using swap by (simp add: Let_def)
qed

lemma kinds_univ: "set ORDER = UNIV"
proof -
  have "kd \<in> set ORDER" for kd by (cases kd) (simp_all add: ORDER_def)
  then show ?thesis by blast
qed

text \<open>
  C8. Whatever the entropy source draws (in range), the bag is a permutation of the seven
  kinds: it has the elements of ORDER with their multiplicities, length 7, no repetition,
  and every kind occurs in it exactly once; so seven draws from one bag yield every kind
  exactly once.
\<close>

theorem bag_permutation:
  assumes "in_range rnd"
  shows "mset (bag rnd) = mset ORDER
         \<and> length (bag rnd) = 7
         \<and> distinct (bag rnd)
         \<and> set (bag rnd) = {I, O', T, S, Z, J, L}
         \<and> (\<forall>kd. count (mset (bag rnd)) kd = 1)"
proof -
  have le: "rnd i \<le> i" for i using assms by (simp add: in_range_def)
  have ms: "mset (bag rnd) = mset ORDER"
    unfolding bag_def by (rule bag_loop_mset [OF le]) (simp add: ORDER_def)
  have "size (mset (bag rnd)) = size (mset ORDER)" using ms by simp
  then have len: "length (bag rnd) = 7" by (simp add: ORDER_def)
  have "distinct ORDER" by (simp add: ORDER_def)
  then have dist: "distinct (bag rnd)"
    using mset_eq_imp_distinct_iff [OF ms] by simp
  have "set (bag rnd) = set ORDER" using ms by (rule mset_eq_setD)
  then have st: "set (bag rnd) = {I, O', T, S, Z, J, L}" by (simp add: ORDER_def)
  have cnt: "count (mset (bag rnd)) kd = 1" for kd
    unfolding ms by (cases kd) (simp_all add: ORDER_def)
  show ?thesis using ms len dist st cnt by blast
qed


theorem bag_permutation_witness:
  "in_range (\<lambda>i. i div 2) \<and> bag (\<lambda>i. i div 2) = [Z, I, L, O', J, T, S]
   \<and> mset [Z, I, L, O', J, T, S] = mset ORDER \<and> distinct [Z, I, L, O', J, T, S]"
proof -
  have r: "in_range (\<lambda>i. i div 2)" by (simp add: in_range_def)
  have b: "bag (\<lambda>i. i div 2) = [Z, I, L, O', J, T, S]"
    by code_simp
  show ?thesis using r b bag_permutation [OF r] by simp
qed


section \<open>mergePiece on grids of ROWS rows of COLS cells\<close>

lemma wf_grid_nth: "wf_grid g \<Longrightarrow> i < length g \<Longrightarrow> int (length (g ! i)) = COLS"
  by (simp add: wf_grid_def list_all_length)

lemma write_cell_wf:
  assumes "wf_grid g" and "i < length g" and "int j < COLS"
  shows "write_cell g i j v = Inr (g[i := (g ! i)[j := v]])"
    and "wf_grid (g[i := (g ! i)[j := v]])"
proof -
  have "j < length (g ! i)" using wf_grid_nth [OF assms(1,2)] assms(3) by linarith
  then show "write_cell g i j v = Inr (g[i := (g ! i)[j := v]])"
    using assms(2) by (simp add: write_cell_def set_index_def)
  show "wf_grid (g[i := (g ! i)[j := v]])"
    using assms(1,2) by (auto simp: wf_grid_def list_all_length nth_list_update)
qed

lemma painted_wf: "painted P col g g' \<Longrightarrow> wf_grid g \<Longrightarrow> wf_grid g'"
  by (simp add: painted_def wf_grid_def list_all_length)

lemma mergePiece_row_painted:
  assumes "wf_grid g"
  shows "\<exists>g'. mergePiece_row g col nx ny vs = Inr g'
           \<and> painted (\<lambda>i j. int i = ny \<and> (\<exists>t<length vs. vs ! t \<noteq> 0 \<and> int j = nx + int t))
                col g g'"
  using assms
proof (induction vs arbitrary: g nx)
  case Nil
  then show ?case by (simp add: painted_def)
next
  case (Cons v vs)
  show ?case
  proof (cases "v \<noteq> 0 \<and> ny \<ge> 0 \<and> ny < ROWS \<and> nx \<ge> 0 \<and> nx < COLS")
    case True
    let ?g1 = "g[nat ny := (g ! nat ny)[nat nx := Some col]]"
    have "int (length g) = ROWS" using Cons.prems by (simp add: wf_grid_def)
    then have row: "nat ny < length g" using True by linarith
    have col': "int (nat nx) < COLS" using True by simp
    have w: "write_cell g (nat ny) (nat nx) (Some col) = Inr ?g1" and wf1: "wf_grid ?g1"
      using write_cell_wf [OF Cons.prems row col'] by simp_all
    have l1: "length (?g1 ! i) = length (g ! i)" if "i < length g" for i
      using that by (cases "i = nat ny") simp_all
    obtain g' where rec: "mergePiece_row ?g1 col (nx + 1) ny vs = Inr g'"
      and p: "painted (\<lambda>i j. int i = ny \<and> (\<exists>t<length vs. vs ! t \<noteq> 0 \<and> int j = nx + 1 + int t))
                col ?g1 g'"
      using Cons.IH [OF wf1, of "nx + 1"] by blast
    have res: "mergePiece_row g col nx ny (v # vs) = Inr g'"
      using True w rec by simp
    have "painted (\<lambda>i j. int i = ny \<and> (\<exists>t<length (v # vs). (v # vs) ! t \<noteq> 0 \<and> int j = nx + int t))
                col g g'"
      unfolding painted_def
    proof (intro conjI allI impI)
      show "length g' = length g" using p by (simp add: painted_def)
    next
      fix i assume i: "i < length g"
      show "length (g' ! i) = length (g ! i)"
        using p i l1 [OF i] by (simp add: painted_def)
    next
      fix i j assume i: "i < length g" and j: "j < length (g ! i)"
      have j1: "j < length (?g1 ! i)" using j l1 [OF i] by simp
      have eq: "g' ! i ! j =
          (if int i = ny \<and> (\<exists>t<length vs. vs ! t \<noteq> 0 \<and> int j = nx + 1 + int t)
           then Some col else ?g1 ! i ! j)"
        using p i j1 by (simp add: painted_def)
      have g1: "?g1 ! i ! j = (if int i = ny \<and> int j = nx then Some col else g ! i ! j)"
      proof (cases "i = nat ny")
        case same: True
        have "j = nat nx \<longleftrightarrow> int j = nx" using True by auto
        then show ?thesis using same i j True by (auto simp: nth_list_update)
      next
        case other: False
        then have "int i \<noteq> ny" by auto
        then show ?thesis using other by simp
      qed
      show "g' ! i ! j =
          (if int i = ny \<and> (\<exists>t<length (v # vs). (v # vs) ! t \<noteq> 0 \<and> int j = nx + int t)
           then Some col else g ! i ! j)"
        using eq g1 True by (auto simp: Ex_less_Suc2 add.assoc)
    qed
    then show ?thesis using res by blast
  next
    case False
    obtain g' where rec: "mergePiece_row g col (nx + 1) ny vs = Inr g'"
      and p: "painted (\<lambda>i j. int i = ny \<and> (\<exists>t<length vs. vs ! t \<noteq> 0 \<and> int j = nx + 1 + int t))
                col g g'"
      using Cons.IH [OF Cons.prems, of "nx + 1"] by blast
    have res: "mergePiece_row g col nx ny (v # vs) = Inr g'"
      using False rec by auto
    have bound: "int i < ROWS \<and> int j < COLS" if "i < length g" "j < length (g ! i)" for i j
    proof -
      have "int (length g) = ROWS" using Cons.prems by (simp add: wf_grid_def)
      then show ?thesis using that wf_grid_nth [OF Cons.prems that(1)] by linarith
    qed
    have "painted (\<lambda>i j. int i = ny \<and> (\<exists>t<length (v # vs). (v # vs) ! t \<noteq> 0 \<and> int j = nx + int t))
                col g g'"
      unfolding painted_def
    proof (intro conjI allI impI)
      show "length g' = length g" using p by (simp add: painted_def)
    next
      fix i assume i: "i < length g"
      show "length (g' ! i) = length (g ! i)" using p i by (simp add: painted_def)
    next
      fix i j assume i: "i < length g" and j: "j < length (g ! i)"
      have eq: "g' ! i ! j =
          (if int i = ny \<and> (\<exists>t<length vs. vs ! t \<noteq> 0 \<and> int j = nx + 1 + int t)
           then Some col else g ! i ! j)"
        using p i j by (simp add: painted_def)
      have here: "\<not> (v \<noteq> 0 \<and> int i = ny \<and> int j = nx)"
        using False bound [OF i j] by auto
      show "g' ! i ! j =
          (if int i = ny \<and> (\<exists>t<length (v # vs). (v # vs) ! t \<noteq> 0 \<and> int j = nx + int t)
           then Some col else g ! i ! j)"
        using eq here by (auto simp: Ex_less_Suc2 add.assoc)
    qed
    then show ?thesis using res by blast
  qed
qed

lemma mergePiece_rows_painted:
  assumes "wf_grid g"
  shows "\<exists>g'. mergePiece_rows g col px ny rs = Inr g'
           \<and> painted (\<lambda>i j. \<exists>s<length rs. \<exists>t<length (rs ! s).
                               rs ! s ! t \<noteq> 0 \<and> int i = ny + int s \<and> int j = px + int t)
                col g g'"
  using assms
proof (induction rs arbitrary: g ny)
  case Nil
  then show ?case by (simp add: painted_def)
next
  case (Cons r rs)
  obtain g1 where r1: "mergePiece_row g col px ny r = Inr g1"
    and p1: "painted (\<lambda>i j. int i = ny \<and> (\<exists>t<length r. r ! t \<noteq> 0 \<and> int j = px + int t)) col g g1"
    using mergePiece_row_painted [OF Cons.prems] by blast
  have wf1: "wf_grid g1" using painted_wf [OF p1 Cons.prems] .
  obtain g' where rec: "mergePiece_rows g1 col px (ny + 1) rs = Inr g'"
    and p: "painted (\<lambda>i j. \<exists>s<length rs. \<exists>t<length (rs ! s).
                               rs ! s ! t \<noteq> 0 \<and> int i = ny + 1 + int s \<and> int j = px + int t)
                col g1 g'"
    using Cons.IH [OF wf1, of "ny + 1"] by blast
  have res: "mergePiece_rows g col px ny (r # rs) = Inr g'"
    using r1 rec by simp
  have "painted (\<lambda>i j. \<exists>s<length (r # rs). \<exists>t<length ((r # rs) ! s).
                               (r # rs) ! s ! t \<noteq> 0 \<and> int i = ny + int s \<and> int j = px + int t)
                col g g'"
    unfolding painted_def
  proof (intro conjI allI impI)
    show "length g' = length g" using p p1 by (simp add: painted_def)
  next
    fix i assume i: "i < length g"
    show "length (g' ! i) = length (g ! i)" using p p1 i by (simp add: painted_def)
  next
    fix i j assume i: "i < length g" and j: "j < length (g ! i)"
    have i1: "i < length g1" and j1: "j < length (g1 ! i)"
      using p1 i j by (simp_all add: painted_def)
    have eq: "g' ! i ! j =
        (if \<exists>s<length rs. \<exists>t<length (rs ! s).
               rs ! s ! t \<noteq> 0 \<and> int i = ny + 1 + int s \<and> int j = px + int t
         then Some col else g1 ! i ! j)"
      using p i1 j1 by (simp add: painted_def)
    have g1: "g1 ! i ! j =
        (if int i = ny \<and> (\<exists>t<length r. r ! t \<noteq> 0 \<and> int j = px + int t)
         then Some col else g ! i ! j)"
      using p1 i j by (simp add: painted_def)
    show "g' ! i ! j =
        (if \<exists>s<length (r # rs). \<exists>t<length ((r # rs) ! s).
               (r # rs) ! s ! t \<noteq> 0 \<and> int i = ny + int s \<and> int j = px + int t
         then Some col else g ! i ! j)"
      using eq g1 by (auto simp: Ex_less_Suc2 add.assoc)
  qed
  then show ?case using res by blast
qed

lemma mergePiece_painted:
  assumes "wf_grid g"
  shows "\<exists>g'. mergePiece g p = Inr g'
           \<and> painted (\<lambda>i j. (int i, int j) \<in> occupied p) (c p) g g'"
proof -
  obtain g' where res: "mergePiece_rows g (c p) (x p) (y p) (m p) = Inr g'"
    and pt: "painted (\<lambda>i j. \<exists>s<length (m p). \<exists>t<length (m p ! s).
                m p ! s ! t \<noteq> 0 \<and> int i = y p + int s \<and> int j = x p + int t) (c p) g g'"
    using mergePiece_rows_painted [OF assms] by blast
  have "(\<lambda>i j. \<exists>s<length (m p). \<exists>t<length (m p ! s).
                m p ! s ! t \<noteq> 0 \<and> int i = y p + int s \<and> int j = x p + int t)
      = (\<lambda>i j. (int i, int j) \<in> occupied p)"
    by (auto simp: occupied_def fun_eq_iff)
  then show ?thesis using res pt by (simp add: mergePiece_def cloneBoard_def)
qed


section \<open>The lock sequence and scoring\<close>

lemma mergePiece_len:
  assumes "wf_grid b"
  shows "\<exists>g. mergePiece b p = Inr g \<and> wf_grid g"
  using mergePiece_painted [OF assms, of p] painted_wf [OF _ assms] by blast

lemma clearLines_len:
  assumes "int (length b) = ROWS"
  shows "\<exists>cb n. clearLines b = Inr (cb, n) \<and> int (length cb) = ROWS \<and> n = length (filter full b)"
proof -
  have "length (filter (\<lambda>r. \<not> full r) b) = length b - length (filter full b)"
    using sum_length_filter_compl [of full b] by simp
  moreover have "length (filter full b) \<le> length b" by simp
  ultimately show ?thesis using clearLines_char [OF assms] assms by simp
qed

lemma spawn_frame:
  assumes "spawn rnd snap s = Inr s'"
  shows "score s' = score s \<and> lines s' = lines s \<and> level s' = level s
         \<and> board s' = board s \<and> hold s' = hold s \<and> canHold s' \<and> active s' \<noteq> None"
  using assms
  by (auto simp: spawn_def Let_def split: list.splits sum.splits if_splits)

lemma spawn_total:
  assumes "int (length (board snap)) = ROWS" and "queue snap \<noteq> []"
  shows "\<exists>s'. spawn rnd snap s = Inr s'"
proof -
  obtain head rest where q: "queue snap = head # rest"
    using assms(2) by (cases "queue snap") auto
  obtain hit where "collides (board snap) (spawn_piece head) = Inr hit"
    using collides_total [OF assms(1)] by blast
  then show ?thesis using q by (simp add: spawn_def Let_def)
qed

lemma lock_char:
  assumes wf: "wf_grid (board snap)" and q: "queue snap \<noteq> []"
  shows "\<exists>merged cb n s'.
           mergePiece (board snap) p = Inr merged \<and> clearLines merged = Inr (cb, n)
           \<and> lock rnd snap s p = Inr s'
           \<and> board s' = cb
           \<and> score s' = score s + scoreFor (level snap) n
           \<and> lines s' = lines s + n
           \<and> level s' = (if n = 0 then level s else 1 + (lines snap + n) div 10)"
proof -
  have len: "int (length (board snap)) = ROWS" using wf by (simp add: wf_grid_def)
  obtain merged where mg: "mergePiece (board snap) p = Inr merged"
    and wm: "wf_grid merged"
    using mergePiece_len [OF wf] by blast
  have lm: "int (length merged) = ROWS" using wm by (simp add: wf_grid_def)
  obtain cb n where cl: "clearLines merged = Inr (cb, n)"
    using clearLines_len [OF lm] by blast
  define s2 where "s2 = (if n > 0
       then s\<lparr>board := cb, lines := lines s + n,
               score := score s + scoreFor (level snap) n,
               level := 1 + (lines snap + n) div 10\<rparr>
       else s\<lparr>board := cb\<rparr>)"
  obtain s' where sp: "spawn rnd snap s2 = Inr s'"
    using spawn_total [OF len q] by blast
  have lk: "lock rnd snap s p = Inr s'"
    using mg cl sp by (auto simp: lock_def s2_def Let_def)
  have z: "scoreFor (level snap) 0 = 0" by (simp add: scoreFor_def)
  have "board s' = cb \<and> score s' = score s + scoreFor (level snap) n
      \<and> lines s' = lines s + n
      \<and> level s' = (if n = 0 then level s else 1 + (lines snap + n) div 10)"
    using spawn_frame [OF sp] z by (auto simp: s2_def)
  then show ?thesis using mg cl lk by blast
qed

lemma collides_below:
  assumes len: "int (length b) = ROWS"
    and occ: "i0 < length (m g)" "j0 < length (m g ! i0)" "m g ! i0 ! j0 \<noteq> 0"
    and low: "ROWS \<le> y g + int i0"
  shows "collides b g = Inr True"
proof -
  have "(y g + int i0, x g + int j0) \<in> occupied g"
    using occ by (rule occupiedI)
  then have "\<exists>(ny, nx) \<in> occupied g.
      nx < 0 \<or> nx \<ge> COLS \<or> ny \<ge> ROWS \<or> (ny \<ge> 0 \<and> filled_at b ny nx)"
    using low by (intro bexI [of _ "(y g + int i0, x g + int j0)"]) simp_all
  then show ?thesis using collides_occupied [OF len, of g] by simp
qed

text \<open>
  The loop of \<open>hardDrop\<close> ends for every piece with an occupied cell on a grid of
  ROWS rows: the piece is moved down by some number of rows, counted in \<open>dist\<close>, to
  the first position whose successor collides.
\<close>

lemma hardDrop_loop_terminates:
  assumes len: "int (length b) = ROWS"
    and occ: "i0 < length (m g)" "j0 < length (m g ! i0)" "m g ! i0 ! j0 \<noteq> 0"
  shows "\<exists>n. hardDrop_loop b g d = Some (Inr (g\<lparr>y := y g + int n\<rparr>, d + n))
              \<and> collides b (g\<lparr>y := y g + int n + 1\<rparr>) = Inr True"
  using occ
proof (induction "nat (ROWS - (y g + int i0))" arbitrary: g d)
  case 0
  then have low: "ROWS \<le> y (g\<lparr>y := y g + 1\<rparr>) + int i0" by simp
  have hit: "collides b (g\<lparr>y := y g + 1\<rparr>) = Inr True"
    using collides_below [OF len _ _ _ low] "0.prems" by simp
  have "hardDrop_loop b g d = Some (Inr (g, d))"
    by (subst hardDrop_loop.simps) (simp add: hit)
  then show ?case using hit by (intro exI [of _ 0]) simp
next
  case (Suc n')
  obtain hit where c: "collides b (g\<lparr>y := y g + 1\<rparr>) = Inr hit"
    using collides_total [OF len] by blast
  show ?case
  proof (cases hit)
    case True
    have "hardDrop_loop b g d = Some (Inr (g, d))"
      by (subst hardDrop_loop.simps) (simp add: c True)
    then show ?thesis using c True by (intro exI [of _ 0]) simp
  next
    case False
    let ?g = "g\<lparr>y := y g + 1\<rparr>"
    have meas: "n' = nat (ROWS - (y ?g + int i0))" using Suc.hyps(2) by simp
    obtain n where rec: "hardDrop_loop b ?g (d + 1) = Some (Inr (?g\<lparr>y := y ?g + int n\<rparr>, d + 1 + n))"
      and stop: "collides b (?g\<lparr>y := y ?g + int n + 1\<rparr>) = Inr True"
      using Suc.hyps(1) [OF meas, of "d + 1"] Suc.prems by auto
    have "hardDrop_loop b g d = hardDrop_loop b ?g (d + 1)"
      by (subst hardDrop_loop.simps) (simp add: c False)
    then have "hardDrop_loop b g d = Some (Inr (g\<lparr>y := y g + int (Suc n)\<rparr>, d + Suc n))"
      using rec by (simp add: add.commute add.left_commute)
    moreover have "collides b (g\<lparr>y := y g + int (Suc n) + 1\<rparr>) = Inr True"
      using stop by (simp add: add.commute add.left_commute)
    ultimately show ?thesis by blast
  qed
qed

text \<open>
  A lock run on the state of the render that created the handler, in \<open>stepDown\<close> (the
  piece cannot move down) and in \<open>hardDrop\<close>: the score grows by the table value for
  the number n of cleared rows (100, 300, 500, 800 for 1, 2, 3, 4 or more, and 0 for
  none) times the level before the lock (in \<open>hardDrop\<close> on top of twice the drop
  distance), the line count grows by n, and the level becomes 1 + floor(lines / 10) of
  the new line count (with n = 0 the level is not set).
\<close>

theorem lock_scoring:
  assumes wf: "wf_grid (board s)" and q: "queue s \<noteq> []"
    and act: "active s = Some a"
  shows "(collides (board s) (a\<lparr>y := y a + 1\<rparr>) = Inr True \<longrightarrow>
           (\<exists>merged cb n s'.
              mergePiece (board s) a = Inr merged \<and> clearLines merged = Inr (cb, n)
              \<and> stepDown rnd s s = Inr s'
              \<and> score s' = score s
                   + (if n = 1 then 100 else if n = 2 then 300 else if n = 3 then 500
                      else if n \<ge> 4 then 800 else 0) * level s
              \<and> lines s' = lines s + n
              \<and> level s' = (if n = 0 then level s else 1 + lines s' div 10)
              \<and> (level s = 1 + lines s div 10 \<longrightarrow> level s' = 1 + lines s' div 10)))
       \<and> (occupied a \<noteq> {} \<longrightarrow>
           (\<exists>ghost dist merged cb n s'.
              hardDrop_loop (board s) a 0 = Some (Inr (ghost, dist))
              \<and> mergePiece (board s) ghost = Inr merged \<and> clearLines merged = Inr (cb, n)
              \<and> hardDrop rnd s = Some (Inr s')
              \<and> score s' = score s + dist * 2
                   + (if n = 1 then 100 else if n = 2 then 300 else if n = 3 then 500
                      else if n \<ge> 4 then 800 else 0) * level s
              \<and> lines s' = lines s + n
              \<and> level s' = (if n = 0 then level s else 1 + lines s' div 10)
              \<and> (level s = 1 + lines s div 10 \<longrightarrow> level s' = 1 + lines s' div 10)))
       \<and> scoreFor 3 2 = 900 \<and> scoreFor (level s) 0 = 0"
proof -
  have len: "int (length (board s)) = ROWS" using wf by (simp add: wf_grid_def)
  have tab: "scoreFor (level s) n =
      (if n = 1 then 100 else if n = 2 then 300 else if n = 3 then 500
       else if n \<ge> 4 then 800 else 0) * level s" for n
    by (simp add: scoreFor_def)
  have step: "\<exists>merged cb n s'.
              mergePiece (board s) a = Inr merged \<and> clearLines merged = Inr (cb, n)
              \<and> stepDown rnd s s = Inr s'
              \<and> score s' = score s
                   + (if n = 1 then 100 else if n = 2 then 300 else if n = 3 then 500
                      else if n \<ge> 4 then 800 else 0) * level s
              \<and> lines s' = lines s + n
              \<and> level s' = (if n = 0 then level s else 1 + lines s' div 10)
              \<and> (level s = 1 + lines s div 10 \<longrightarrow> level s' = 1 + lines s' div 10)"
    if hit: "collides (board s) (a\<lparr>y := y a + 1\<rparr>) = Inr True"
  proof -
    obtain merged cb n s' where mg: "mergePiece (board s) a = Inr merged"
      and cl: "clearLines merged = Inr (cb, n)"
      and lk: "lock rnd s s a = Inr s'"
      and sc: "score s' = score s + scoreFor (level s) n"
      and li: "lines s' = lines s + n"
      and lv: "level s' = (if n = 0 then level s else 1 + (lines s + n) div 10)"
      using lock_char [OF wf q, of a rnd s] by blast
    have sd: "stepDown rnd s s = Inr s'"
      using act hit lk by (simp add: stepDown_def Let_def)
    have lv': "level s' = (if n = 0 then level s else 1 + lines s' div 10)"
      using lv li by simp
    have inv: "level s = 1 + lines s div 10 \<longrightarrow> level s' = 1 + lines s' div 10"
      using lv' li by simp
    show ?thesis
      using mg cl sd sc [unfolded tab] li lv' inv by blast
  qed
  have drop: "\<exists>ghost dist merged cb n s'.
              hardDrop_loop (board s) a 0 = Some (Inr (ghost, dist))
              \<and> mergePiece (board s) ghost = Inr merged \<and> clearLines merged = Inr (cb, n)
              \<and> hardDrop rnd s = Some (Inr s')
              \<and> score s' = score s + dist * 2
                   + (if n = 1 then 100 else if n = 2 then 300 else if n = 3 then 500
                      else if n \<ge> 4 then 800 else 0) * level s
              \<and> lines s' = lines s + n
              \<and> level s' = (if n = 0 then level s else 1 + lines s' div 10)
              \<and> (level s = 1 + lines s div 10 \<longrightarrow> level s' = 1 + lines s' div 10)"
    if occ: "occupied a \<noteq> {}"
  proof -
    obtain i0 j0 where "i0 < length (m a)" "j0 < length (m a ! i0)" "m a ! i0 ! j0 \<noteq> 0"
      using occ by (auto simp: occupied_def)
    then obtain dist where lp: "hardDrop_loop (board s) a 0
        = Some (Inr (a\<lparr>y := y a + int dist\<rparr>, dist))"
      using hardDrop_loop_terminates [OF len, of i0 a j0 0] by auto
    let ?ghost = "a\<lparr>y := y a + int dist\<rparr>"
    let ?s0 = "s\<lparr>active := Some ?ghost, score := score s + dist * 2\<rparr>"
    obtain merged cb n s' where mg: "mergePiece (board s) ?ghost = Inr merged"
      and cl: "clearLines merged = Inr (cb, n)"
      and lk: "lock rnd s ?s0 ?ghost = Inr s'"
      and sc: "score s' = score ?s0 + scoreFor (level s) n"
      and li: "lines s' = lines ?s0 + n"
      and lv: "level s' = (if n = 0 then level ?s0 else 1 + (lines s + n) div 10)"
      using lock_char [OF wf q, of ?ghost rnd ?s0] by blast
    have hd: "hardDrop rnd s = Some (Inr s')"
      using act lp lk by (simp add: hardDrop_def)
    have sc': "score s' = score s + dist * 2
                   + (if n = 1 then 100 else if n = 2 then 300 else if n = 3 then 500
                      else if n \<ge> 4 then 800 else 0) * level s"
      using sc [unfolded tab] by simp
    have li': "lines s' = lines s + n" using li by simp
    have lv': "level s' = (if n = 0 then level s else 1 + lines s' div 10)"
      using lv li' by simp
    have inv: "level s = 1 + lines s div 10 \<longrightarrow> level s' = 1 + lines s' div 10"
      using lv' li' by simp
    show ?thesis
      using lp mg cl hd sc' li' lv' inv by blast
  qed
  have ex: "scoreFor 3 2 = 900 \<and> scoreFor (level s) 0 = 0"
    by (simp add: scoreFor_def)
  show ?thesis using step drop ex by blast
qed

lemma lock_state_clears:
  "(case mergePiece (board lock_state) ((spawn_piece O')\<lparr>x := 0, y := 18\<rparr>) of
      Inl e \<Rightarrow> False
    | Inr mg \<Rightarrow> (case clearLines mg of Inl e \<Rightarrow> False | Inr (cb, n) \<Rightarrow> n = 2))"
  by code_simp

lemma lock_state_rests:
  "collides (board lock_state) ((spawn_piece O')\<lparr>x := 0, y := 19\<rparr>) = Inr True"
  by code_simp

lemma lock_state_drop:
  "hardDrop_loop (board lock_state) ((spawn_piece O')\<lparr>x := 0, y := 18\<rparr>) 0
     = Some (Inr ((spawn_piece O')\<lparr>x := 0, y := 18\<rparr>, 0))"
  by code_simp

theorem lock_scoring_witness:
  "wf_grid (board lock_state) \<and> level lock_state = 3
   \<and> (\<exists>s'. stepDown (\<lambda>i. 0) lock_state lock_state = Inr s'
             \<and> score s' = score lock_state + 900 \<and> lines s' = 30 \<and> level s' = 4)
   \<and> (\<exists>s'. hardDrop (\<lambda>i. 0) lock_state = Some (Inr s')
             \<and> score s' = score lock_state + 900 \<and> lines s' = 30 \<and> level s' = 4)"
proof -
  let ?a = "(spawn_piece O')\<lparr>x := 0, y := 18\<rparr>"
  have len: "wf_grid (board lock_state)"
    by (simp add: lock_state_def wf_grid_def ROWS_def COLS_def list_all_iff)
  have q: "queue lock_state \<noteq> []" by (simp add: lock_state_def)
  have act: "active lock_state = Some ?a" by (simp add: lock_state_def)
  have lvl: "level lock_state = 3" and lns: "lines lock_state = 28"
    by (simp_all add: lock_state_def)
  have hit: "collides (board lock_state) (?a\<lparr>y := y ?a + 1\<rparr>) = Inr True"
    using lock_state_rests by simp
  have occ: "occupied ?a \<noteq> {}"
    using occupiedI [of 0 ?a 0] by (auto simp: spawn_piece_def Let_def)
  note inst = lock_scoring [OF len q act, of "\<lambda>i. 0"]
  obtain merged cb n s' where mg: "mergePiece (board lock_state) ?a = Inr merged"
    and cl: "clearLines merged = Inr (cb, n)"
    and sd: "stepDown (\<lambda>i. 0) lock_state lock_state = Inr s'"
    and sc: "score s' = score lock_state
                   + (if n = 1 then 100 else if n = 2 then 300 else if n = 3 then 500
                      else if n \<ge> 4 then 800 else 0) * level lock_state"
    and li: "lines s' = lines lock_state + n"
    and lv: "level s' = (if n = 0 then level lock_state else 1 + lines s' div 10)"
    using inst hit by blast
  have n: "n = 2" using lock_state_clears mg cl by simp
  have A: "\<exists>s'. stepDown (\<lambda>i. 0) lock_state lock_state = Inr s'
             \<and> score s' = score lock_state + 900 \<and> lines s' = 30 \<and> level s' = 4"
    using sd sc li lv n lvl lns by simp
  obtain ghost dist merged' cb' n' s'' where
        lp: "hardDrop_loop (board lock_state) ?a 0 = Some (Inr (ghost, dist))"
    and mg': "mergePiece (board lock_state) ghost = Inr merged'"
    and cl': "clearLines merged' = Inr (cb', n')"
    and hd: "hardDrop (\<lambda>i. 0) lock_state = Some (Inr s'')"
    and sc': "score s'' = score lock_state + dist * 2
                   + (if n' = 1 then 100 else if n' = 2 then 300 else if n' = 3 then 500
                      else if n' \<ge> 4 then 800 else 0) * level lock_state"
    and li': "lines s'' = lines lock_state + n'"
    and lv': "level s'' = (if n' = 0 then level lock_state else 1 + lines s'' div 10)"
    using inst occ by blast
  have g: "ghost = ?a" "dist = 0" using lp lock_state_drop by simp_all
  have n': "n' = 2" using lock_state_clears mg' cl' g by simp
  have B: "\<exists>s'. hardDrop (\<lambda>i. 0) lock_state = Some (Inr s')
             \<and> score s' = score lock_state + 900 \<and> lines s' = 30 \<and> level s' = 4"
    using hd sc' li' lv' n' g lvl lns by simp
  show ?thesis using len lvl A B by blast
qed

text \<open>
  A second lock on the same closure, as the gravity loop of one frame makes it: the
  same rows are counted again, the score grows by the table value times the closure's
  level again, and the level is set from the closure's line count.
\<close>

lemma second_lock_on_one_closure:
  assumes wf: "wf_grid (board snap)" and q: "queue snap \<noteq> []"
    and act: "active snap = Some a"
    and hit: "collides (board snap) (a\<lparr>y := y a + 1\<rparr>) = Inr True"
  shows "\<exists>merged cb n s1 s2.
           mergePiece (board snap) a = Inr merged \<and> clearLines merged = Inr (cb, n)
           \<and> stepDown rnd snap snap = Inr s1 \<and> stepDown rnd' snap s1 = Inr s2
           \<and> lines s2 = lines snap + n + n
           \<and> score s2 = score snap + scoreFor (level snap) n + scoreFor (level snap) n
           \<and> level s2 = (if n = 0 then level snap else 1 + (lines snap + n) div 10)"
proof -
  obtain merged cb n s1 where mg: "mergePiece (board snap) a = Inr merged"
    and cl: "clearLines merged = Inr (cb, n)"
    and l1: "lock rnd snap snap a = Inr s1"
    and sc1: "score s1 = score snap + scoreFor (level snap) n"
    and li1: "lines s1 = lines snap + n"
    and lv1: "level s1 = (if n = 0 then level snap else 1 + (lines snap + n) div 10)"
    using lock_char [OF wf q, of a rnd snap] by blast
  obtain merged' cb' n' s2 where mg': "mergePiece (board snap) a = Inr merged'"
    and cl': "clearLines merged' = Inr (cb', n')"
    and l2: "lock rnd' snap s1 a = Inr s2"
    and sc2: "score s2 = score s1 + scoreFor (level snap) n'"
    and li2: "lines s2 = lines s1 + n'"
    and lv2: "level s2 = (if n' = 0 then level s1 else 1 + (lines snap + n') div 10)"
    using lock_char [OF wf q, of a rnd' s1] by blast
  have same: "n' = n" using mg mg' cl cl' by simp
  have sd1: "stepDown rnd snap snap = Inr s1"
    using act hit l1 by (simp add: stepDown_def Let_def)
  have sd2: "stepDown rnd' snap s1 = Inr s2"
    using act hit l2 by (simp add: stepDown_def Let_def)
  have "lines s2 = lines snap + n + n"
    and "score s2 = score snap + scoreFor (level snap) n + scoreFor (level snap) n"
    and "level s2 = (if n = 0 then level snap else 1 + (lines snap + n) div 10)"
    using sc1 sc2 li1 li2 lv1 lv2 same by simp_all
  then show ?thesis using mg cl sd1 sd2 by blast
qed

text \<open>
  C4. The code at the failing input: a frame whose accumulated time covers two drop
  intervals, with the piece resting and completing two rows. In \<open>low_state\<close> (7 lines,
  level 1) the first lock gives 9 lines at level 1 and the second, on the same closure,
  11 lines with the level still 1, where 1 + floor(11 / 10) is 2. In \<open>lock_state\<close>
  (28 lines, level 3) the first lock gives level 4 and the second adds 300 * 3, not
  300 * 4.
\<close>

theorem second_lock_of_a_frame_is_stale:
  "dropMs low_state = 1000
   \<and> map_sum id (\<lambda>s. (score s, lines s, level s)) (stepDown (\<lambda>i. 0) low_state low_state)
       = Inr (300, 9, 1)
   \<and> map_sum id (\<lambda>(s, acc). (score s, lines s, level s, acc))
         (gravity_loop (\<lambda>n i. 0) low_state 2000 0 low_state)
       = Inr (600, 11, 1, 0)
   \<and> dropMs lock_state = 850
   \<and> map_sum id (\<lambda>s. (score s, lines s, level s)) (stepDown (\<lambda>i. 0) lock_state lock_state)
       = Inr (1900, 30, 4)
   \<and> map_sum id (\<lambda>(s, acc). (score s, lines s, level s, acc))
         (gravity_loop (\<lambda>n i. 0) lock_state 1700 0 lock_state)
       = Inr (2800, 32, 4, 0)"
proof -
  have d1: "dropMs low_state = 1000" and d2: "dropMs lock_state = 850"
    by code_simp+
  have one: "map_sum id (\<lambda>s. (score s, lines s, level s)) (stepDown (\<lambda>i. 0) low_state low_state)
       = Inr (300, 9, 1)"
    by code_simp
  have two: "map_sum id (\<lambda>(s, acc). (score s, lines s, level s, acc))
         (gravity_loop (\<lambda>n i. 0) low_state 2000 0 low_state)
       = Inr (600, 11, 1, 0)"
    by code_simp
  have one': "map_sum id (\<lambda>s. (score s, lines s, level s)) (stepDown (\<lambda>i. 0) lock_state lock_state)
       = Inr (1900, 30, 4)"
    by code_simp
  have two': "map_sum id (\<lambda>(s, acc). (score s, lines s, level s, acc))
         (gravity_loop (\<lambda>n i. 0) lock_state 1700 0 lock_state)
       = Inr (2800, 32, 4, 0)"
    by code_simp
  show ?thesis using d1 d2 one two one' two' by simp
qed

section \<open>Rotation\<close>

lemma fold_upt_Suc: "fold f [0..<Suc n] a = f n (fold f [0..<n] a)"
  by simp

text \<open>The inner loop of rotateMatrixCW after n columns.\<close>

lemma cw_inner:
  assumes "n \<le> length res"
  shows "length (fold (\<lambda>j res. res[j := (res ! j)[q := g j]]) [0..<n] res) = length res
    \<and> (\<forall>j<length res.
          fold (\<lambda>j res. res[j := (res ! j)[q := g j]]) [0..<n] res ! j
            = (if j < n then (res ! j)[q := g j] else res ! j))"
  using assms
proof (induction n)
  case 0
  then show ?case by simp
next
  case (Suc n)
  let ?R = "fold (\<lambda>j res. res[j := (res ! j)[q := g j]]) [0..<n] res"
  have IH: "length ?R = length res"
    "\<And>j. j < length res \<Longrightarrow> ?R ! j = (if j < n then (res ! j)[q := g j] else res ! j)"
    using Suc by simp_all
  have n: "n < length res" using Suc.prems by simp
  show ?case
    unfolding fold_upt_Suc using IH n by (auto simp: nth_list_update)
qed

text \<open>The inner loop of rotateMatrixCCW after n columns.\<close>

lemma ccw_inner:
  assumes "n \<le> w" and "length res = w"
  shows "length (fold (\<lambda>j res. res[w - 1 - j := (res ! (w - 1 - j))[q := g j]]) [0..<n] res) = w
    \<and> (\<forall>r<w.
          fold (\<lambda>j res. res[w - 1 - j := (res ! (w - 1 - j))[q := g j]]) [0..<n] res ! r
            = (if w - 1 - r < n then (res ! r)[q := g (w - 1 - r)] else res ! r))"
  using assms
proof (induction n)
  case 0
  then show ?case by simp
next
  case (Suc n)
  let ?R = "fold (\<lambda>j res. res[w - 1 - j := (res ! (w - 1 - j))[q := g j]]) [0..<n] res"
  have IH: "length ?R = w"
    "\<And>r. r < w \<Longrightarrow> ?R ! r = (if w - 1 - r < n then (res ! r)[q := g (w - 1 - r)] else res ! r)"
    using Suc by simp_all
  have n: "n < w" using Suc.prems by simp
  have len: "length (?R[w - 1 - n := (?R ! (w - 1 - n))[q := g n]]) = w"
    using IH(1) by simp
  have nth: "?R[w - 1 - n := (?R ! (w - 1 - n))[q := g n]] ! r
      = (if w - 1 - r < Suc n then (res ! r)[q := g (w - 1 - r)] else res ! r)"
    if r: "r < w" for r
  proof (cases "r = w - 1 - n")
    case True
    then have "w - 1 - r = n" using n by simp
    then show ?thesis using True IH r by simp
  next
    case False
    then have "w - 1 - r \<noteq> n" using n r by linarith
    then show ?thesis using False IH(2) [OF r] r by (simp add: less_Suc_eq)
  qed
  show ?case unfolding fold_upt_Suc using len nth by blast
qed

lemma cw_outer:
  assumes "kk \<le> h"
  shows "length (fold (\<lambda>i res. fold (\<lambda>j res. res[j := (res ! j)[h - 1 - i := mread mat i j]])
                         [0..<w] res) [0..<kk] (replicate w (replicate h 0))) = w
    \<and> (\<forall>j<w. fold (\<lambda>i res. fold (\<lambda>j res. res[j := (res ! j)[h - 1 - i := mread mat i j]])
                         [0..<w] res) [0..<kk] (replicate w (replicate h 0)) ! j
           = map (\<lambda>t. if h - 1 - t < kk then mread mat (h - 1 - t) j else 0) [0..<h])"
  using assms
proof (induction kk)
  case 0
  show ?case by (auto intro: nth_equalityI)
next
  case (Suc kk)
  let ?R = "fold (\<lambda>i res. fold (\<lambda>j res. res[j := (res ! j)[h - 1 - i := mread mat i j]])
                         [0..<w] res) [0..<kk] (replicate w (replicate h 0))"
  have IH: "length ?R = w"
    "\<And>j. j < w \<Longrightarrow> ?R ! j = map (\<lambda>t. if h - 1 - t < kk then mread mat (h - 1 - t) j else 0) [0..<h]"
    using Suc by simp_all
  have kk: "kk < h" using Suc.prems by simp
  note inner = cw_inner [where n = w and res = ?R and q = "h - 1 - kk" and g = "\<lambda>j. mread mat kk j"]
  have len: "length (fold (\<lambda>j res. res[j := (res ! j)[h - 1 - kk := mread mat kk j]]) [0..<w] ?R) = w"
    using inner IH(1) by simp
  have nth: "fold (\<lambda>j res. res[j := (res ! j)[h - 1 - kk := mread mat kk j]]) [0..<w] ?R ! j
      = map (\<lambda>t. if h - 1 - t < Suc kk then mread mat (h - 1 - t) j else 0) [0..<h]"
    if j: "j < w" for j
  proof -
    have "fold (\<lambda>j res. res[j := (res ! j)[h - 1 - kk := mread mat kk j]]) [0..<w] ?R ! j
        = (?R ! j)[h - 1 - kk := mread mat kk j]"
      using inner IH(1) j by simp
    also have "\<dots> = (map (\<lambda>t. if h - 1 - t < kk then mread mat (h - 1 - t) j else 0) [0..<h])
                        [h - 1 - kk := mread mat kk j]"
      using IH(2) [OF j] by simp
    also have "\<dots> = map (\<lambda>t. if h - 1 - t < Suc kk then mread mat (h - 1 - t) j else 0) [0..<h]"
    proof (rule nth_equalityI)
      show "length ((map (\<lambda>t. if h - 1 - t < kk then mread mat (h - 1 - t) j else 0) [0..<h])
                        [h - 1 - kk := mread mat kk j])
          = length (map (\<lambda>t. if h - 1 - t < Suc kk then mread mat (h - 1 - t) j else 0) [0..<h])"
        by simp
    next
      fix t
      assume "t < length ((map (\<lambda>t. if h - 1 - t < kk then mread mat (h - 1 - t) j else 0) [0..<h])
                        [h - 1 - kk := mread mat kk j])"
      then have t: "t < h" by simp
      show "(map (\<lambda>t. if h - 1 - t < kk then mread mat (h - 1 - t) j else 0) [0..<h])
                        [h - 1 - kk := mread mat kk j] ! t
          = map (\<lambda>t. if h - 1 - t < Suc kk then mread mat (h - 1 - t) j else 0) [0..<h] ! t"
      proof (cases "t = h - 1 - kk")
        case True
        then have "h - 1 - t = kk" using kk by simp
        then show ?thesis using True t by simp
      next
        case False
        then have "h - 1 - t \<noteq> kk" using kk t by linarith
        then show ?thesis using False t by (simp add: less_Suc_eq)
      qed
    qed
    finally show ?thesis .
  qed
  show ?case unfolding fold_upt_Suc using len nth by blast
qed

lemma ccw_outer:
  assumes "kk \<le> h"
  shows "length (fold (\<lambda>i res. fold (\<lambda>j res. res[w - 1 - j := (res ! (w - 1 - j))[i := mread mat i j]])
                         [0..<w] res) [0..<kk] (replicate w (replicate h 0))) = w
    \<and> (\<forall>r<w. fold (\<lambda>i res. fold (\<lambda>j res. res[w - 1 - j := (res ! (w - 1 - j))[i := mread mat i j]])
                         [0..<w] res) [0..<kk] (replicate w (replicate h 0)) ! r
           = map (\<lambda>t. if t < kk then mread mat t (w - 1 - r) else 0) [0..<h])"
  using assms
proof (induction kk)
  case 0
  show ?case by (auto intro: nth_equalityI)
next
  case (Suc kk)
  let ?R = "fold (\<lambda>i res. fold (\<lambda>j res. res[w - 1 - j := (res ! (w - 1 - j))[i := mread mat i j]])
                         [0..<w] res) [0..<kk] (replicate w (replicate h 0))"
  have IH: "length ?R = w"
    "\<And>r. r < w \<Longrightarrow> ?R ! r = map (\<lambda>t. if t < kk then mread mat t (w - 1 - r) else 0) [0..<h]"
    using Suc by simp_all
  have kk: "kk < h" using Suc.prems by simp
  note inner = ccw_inner [where n = w and w = w and res = ?R and q = kk and g = "\<lambda>j. mread mat kk j"]
  have len: "length (fold (\<lambda>j res. res[w - 1 - j := (res ! (w - 1 - j))[kk := mread mat kk j]]) [0..<w] ?R) = w"
    using inner IH(1) by simp
  have nth: "fold (\<lambda>j res. res[w - 1 - j := (res ! (w - 1 - j))[kk := mread mat kk j]]) [0..<w] ?R ! r
      = map (\<lambda>t. if t < Suc kk then mread mat t (w - 1 - r) else 0) [0..<h]"
    if r: "r < w" for r
  proof -
    have lt: "w - 1 - r < w" using r by simp
    have "fold (\<lambda>j res. res[w - 1 - j := (res ! (w - 1 - j))[kk := mread mat kk j]]) [0..<w] ?R ! r
        = (?R ! r)[kk := mread mat kk (w - 1 - r)]"
      using inner IH(1) r lt by simp
    also have "\<dots> = (map (\<lambda>t. if t < kk then mread mat t (w - 1 - r) else 0) [0..<h])
                        [kk := mread mat kk (w - 1 - r)]"
      using IH(2) [OF r] by simp
    also have "\<dots> = map (\<lambda>t. if t < Suc kk then mread mat t (w - 1 - r) else 0) [0..<h]"
      by (rule nth_equalityI) (auto simp: nth_list_update less_Suc_eq)
    finally show ?thesis .
  qed
  show ?case unfolding fold_upt_Suc using len nth by blast
qed

lemma rect_nth: "rect mat h w \<Longrightarrow> i < h \<Longrightarrow> length (mat ! i) = w"
  by (simp add: rect_def list_all_length)

lemma rotateMatrixCW_form:
  assumes r: "rect mat h w" and h: "0 < h"
  shows "rotateMatrixCW mat = Inr (cw_form mat h w)"
proof -
  obtain r0 rs where m: "mat = r0 # rs" using r h by (cases mat) (auto simp: rect_def)
  have lh: "length mat = h" using r by (simp add: rect_def)
  have lw: "length r0 = w" using rect_nth [OF r, of 0] h m by simp
  let ?R = "fold (\<lambda>i res. fold (\<lambda>j res. res[j := (res ! j)[h - 1 - i := mread mat i j]])
                         [0..<w] res) [0..<h] (replicate w (replicate h 0))"
  have R: "length ?R = w"
    "\<And>j. j < w \<Longrightarrow> ?R ! j = map (\<lambda>t. if h - 1 - t < h then mread mat (h - 1 - t) j else 0) [0..<h]"
    using cw_outer [where kk = h and h = h and w = w and mat = mat] by simp_all
  have "?R = cw_form mat h w"
  proof (rule nth_equalityI)
    show "length ?R = length (cw_form mat h w)" using R(1) by (simp add: cw_form_def)
  next
    fix j assume "j < length ?R"
    then have j: "j < w" using R(1) by simp
    have "map (\<lambda>t. if h - 1 - t < h then mread mat (h - 1 - t) j else 0) [0..<h]
        = map (\<lambda>t. mat ! (h - 1 - t) ! j) [0..<h]"
      using rect_nth [OF r] j h by (auto simp: mread_def)
    then show "?R ! j = cw_form mat h w ! j" using R(2) [OF j] j by (simp add: cw_form_def)
  qed
  moreover have "rotateMatrixCW mat = Inr ?R"
    using lh lw by (simp add: rotateMatrixCW_def m Let_def)
  ultimately show ?thesis by simp
qed

lemma rotateMatrixCCW_form:
  assumes r: "rect mat h w" and h: "0 < h"
  shows "rotateMatrixCCW mat = Inr (ccw_form mat h w)"
proof -
  obtain r0 rs where m: "mat = r0 # rs" using r h by (cases mat) (auto simp: rect_def)
  have lh: "length mat = h" using r by (simp add: rect_def)
  have lw: "length r0 = w" using rect_nth [OF r, of 0] h m by simp
  let ?R = "fold (\<lambda>i res. fold (\<lambda>j res. res[w - 1 - j := (res ! (w - 1 - j))[i := mread mat i j]])
                         [0..<w] res) [0..<h] (replicate w (replicate h 0))"
  have R: "length ?R = w"
    "\<And>j. j < w \<Longrightarrow> ?R ! j = map (\<lambda>t. if t < h then mread mat t (w - 1 - j) else 0) [0..<h]"
    using ccw_outer [where kk = h and h = h and w = w and mat = mat] by simp_all
  have "?R = ccw_form mat h w"
  proof (rule nth_equalityI)
    show "length ?R = length (ccw_form mat h w)" using R(1) by (simp add: ccw_form_def)
  next
    fix j assume "j < length ?R"
    then have j: "j < w" using R(1) by simp
    have "map (\<lambda>t. if t < h then mread mat t (w - 1 - j) else 0) [0..<h]
        = map (\<lambda>t. mat ! t ! (w - 1 - j)) [0..<h]"
      using rect_nth [OF r] j h by (auto simp: mread_def)
    then show "?R ! j = ccw_form mat h w ! j" using R(2) [OF j] j by (simp add: ccw_form_def)
  qed
  moreover have "rotateMatrixCCW mat = Inr ?R"
    using lh lw by (simp add: rotateMatrixCCW_def m Let_def)
  ultimately show ?thesis by simp
qed


lemma rect_cw_form: "rect (cw_form mat h w) w h"
  by (simp add: rect_def cw_form_def list_all_length)

lemma rect_ccw_form: "rect (ccw_form mat h w) w h"
  by (simp add: rect_def ccw_form_def list_all_length)

lemma cw_form_transpose:
  assumes r: "rect mat h w" and h: "0 < h"
  shows "cw_form mat h w = transpose_reverse_rows mat"
proof -
  have lh: "length mat = h" using r by (simp add: rect_def)
  have ne: "mat = [] \<Longrightarrow> w = 0" using lh h by simp
  have tr: "transpose mat = map (\<lambda>i. map (\<lambda>j. mat ! j ! i) [0..<h]) [0..<w]"
    using transpose_rectangle [of mat w, OF ne] rect_nth [OF r] lh by simp
  have row: "rev (map (\<lambda>j. mat ! j ! i) [0..<h]) = map (\<lambda>t. mat ! (h - 1 - t) ! i) [0..<h]" for i
    by (rule nth_equalityI) (simp_all add: rev_nth)
  show ?thesis
    unfolding transpose_reverse_rows_def tr cw_form_def by (simp add: row)
qed

lemma ccw_cw_form:
  assumes r: "rect mat h w"
  shows "ccw_form (cw_form mat h w) w h = mat"
proof (rule nth_equalityI)
  show "length (ccw_form (cw_form mat h w) w h) = length mat"
    using r by (simp add: ccw_form_def rect_def)
next
  fix i assume "i < length (ccw_form (cw_form mat h w) w h)"
  then have i: "i < h" by (simp add: ccw_form_def)
  have li: "length (mat ! i) = w" using rect_nth [OF r i] .
  have "ccw_form (cw_form mat h w) w h ! i = map (\<lambda>t. mat ! i ! t) [0..<w]"
    using i by (simp add: ccw_form_def cw_form_def)
  also have "\<dots> = mat ! i" using li map_nth [of "mat ! i"] by simp
  finally show "ccw_form (cw_form mat h w) w h ! i = mat ! i" .
qed

lemma cw_ccw_form:
  assumes r: "rect mat h w"
  shows "cw_form (ccw_form mat h w) w h = mat"
proof (rule nth_equalityI)
  show "length (cw_form (ccw_form mat h w) w h) = length mat"
    using r by (simp add: cw_form_def rect_def)
next
  fix i assume "i < length (cw_form (ccw_form mat h w) w h)"
  then have i: "i < h" by (simp add: cw_form_def)
  have li: "length (mat ! i) = w" using rect_nth [OF r i] .
  have "cw_form (ccw_form mat h w) w h ! i = map (\<lambda>t. mat ! i ! t) [0..<w]"
    using i by (simp add: ccw_form_def cw_form_def)
  also have "\<dots> = mat ! i" using li map_nth [of "mat ! i"] by simp
  finally show "cw_form (ccw_form mat h w) w h ! i = mat ! i" .
qed

lemma rotate_kicks_find:
  assumes "int (length b) = ROWS"
  shows "rotate_kicks b a rotated ks =
           Inr (map_option (\<lambda>dx. a\<lparr>m := rotated, x := x a + dx\<rparr>)
                  (find (\<lambda>dx. collides b (a\<lparr>m := rotated, x := x a + dx\<rparr>) = Inr False) ks))"
proof (induction ks)
  case Nil
  then show ?case by simp
next
  case (Cons dx ks)
  obtain hit where "collides b (a\<lparr>m := rotated, x := x a + dx\<rparr>) = Inr hit"
    using collides_total [OF assms] by blast
  then show ?case using Cons by (cases hit) (simp_all add: Let_def)
qed

lemma rotate_find:
  assumes len: "int (length (board s)) = ROWS" and act: "active s = Some a"
    and rot: "rotFn (m a) = Inr rotated"
  shows "rotate_piece rotFn s =
           Inr (case find (\<lambda>dx. collides (board s) (a\<lparr>m := rotated, x := x a + dx\<rparr>) = Inr False)
                       [0, - 1, 1, - 2, 2] of
                  None \<Rightarrow> s
                | Some dx \<Rightarrow> s\<lparr>active := Some (a\<lparr>m := rotated, x := x a + dx\<rparr>)\<rparr>)"
proof -
  let ?f = "find (\<lambda>dx. collides (board s) (a\<lparr>m := rotated, x := x a + dx\<rparr>) = Inr False)
              [0, - 1, 1, - 2, 2]"
  have rk: "rotate_kicks (board s) a rotated kicks =
      Inr (map_option (\<lambda>dx. a\<lparr>m := rotated, x := x a + dx\<rparr>) ?f)"
    unfolding kicks_def by (rule rotate_kicks_find [OF len])
  show ?thesis
    unfolding rotate_piece_def using act rot rk by (cases ?f) simp_all
qed

text \<open>
  C3. For an active piece with a rectangular, non-empty matrix on a grid of ROWS rows:
  \<open>rotateMatrixCW\<close> is transpose-and-reverse-rows, \<open>rotateMatrixCCW\<close> is its inverse
  (in both orders), and \<open>rotate\<close> with either helper rotates the current matrix, tries
  the offsets 0, -1, +1, -2, +2 in this order and adopts the first at which the rotated
  piece does not collide; if every offset collides the state, and so the piece's matrix
  and position, is unchanged.
\<close>

theorem rotate_correct:
  assumes len: "int (length (board s)) = ROWS" and act: "active s = Some a"
    and r: "rect (m a) h w" and h: "0 < h" and w: "0 < w"
  shows "rotateMatrixCW (m a) = Inr (transpose_reverse_rows (m a))
    \<and> (case rotateMatrixCW (m a) of Inl e \<Rightarrow> Inl e | Inr r \<Rightarrow> rotateMatrixCCW r) = Inr (m a)
    \<and> (case rotateMatrixCCW (m a) of Inl e \<Rightarrow> Inl e | Inr r \<Rightarrow> rotateMatrixCW r) = Inr (m a)
    \<and> (\<exists>rotated. rotateMatrixCW (m a) = Inr rotated \<and>
          rotateCW s =
            Inr (case find (\<lambda>dx. collides (board s) (a\<lparr>m := rotated, x := x a + dx\<rparr>) = Inr False)
                        [0, - 1, 1, - 2, 2] of
                   None \<Rightarrow> s
                 | Some dx \<Rightarrow> s\<lparr>active := Some (a\<lparr>m := rotated, x := x a + dx\<rparr>)\<rparr>))
    \<and> (\<exists>rotated. rotateMatrixCCW (m a) = Inr rotated \<and>
          rotateCCW s =
            Inr (case find (\<lambda>dx. collides (board s) (a\<lparr>m := rotated, x := x a + dx\<rparr>) = Inr False)
                        [0, - 1, 1, - 2, 2] of
                   None \<Rightarrow> s
                 | Some dx \<Rightarrow> s\<lparr>active := Some (a\<lparr>m := rotated, x := x a + dx\<rparr>)\<rparr>))"
proof -
  have cw: "rotateMatrixCW (m a) = Inr (cw_form (m a) h w)"
    by (rule rotateMatrixCW_form [OF r h])
  have ccw: "rotateMatrixCCW (m a) = Inr (ccw_form (m a) h w)"
    by (rule rotateMatrixCCW_form [OF r h])
  have p1: "rotateMatrixCW (m a) = Inr (transpose_reverse_rows (m a))"
    using cw cw_form_transpose [OF r h] by simp
  have "rotateMatrixCCW (cw_form (m a) h w) = Inr (ccw_form (cw_form (m a) h w) w h)"
    by (rule rotateMatrixCCW_form [OF rect_cw_form w])
  then have p2: "(case rotateMatrixCW (m a) of Inl e \<Rightarrow> Inl e | Inr r \<Rightarrow> rotateMatrixCCW r)
      = Inr (m a)"
    using cw ccw_cw_form [OF r] by simp
  have "rotateMatrixCW (ccw_form (m a) h w) = Inr (cw_form (ccw_form (m a) h w) w h)"
    by (rule rotateMatrixCW_form [OF rect_ccw_form w])
  then have p3: "(case rotateMatrixCCW (m a) of Inl e \<Rightarrow> Inl e | Inr r \<Rightarrow> rotateMatrixCW r)
      = Inr (m a)"
    using ccw cw_ccw_form [OF r] by simp
  have p4: "\<exists>rotated. rotateMatrixCW (m a) = Inr rotated \<and>
          rotateCW s =
            Inr (case find (\<lambda>dx. collides (board s) (a\<lparr>m := rotated, x := x a + dx\<rparr>) = Inr False)
                        [0, - 1, 1, - 2, 2] of
                   None \<Rightarrow> s
                 | Some dx \<Rightarrow> s\<lparr>active := Some (a\<lparr>m := rotated, x := x a + dx\<rparr>)\<rparr>)"
    unfolding rotateCW_def using cw rotate_find [where rotFn = rotateMatrixCW, OF len act cw] by blast
  have p5: "\<exists>rotated. rotateMatrixCCW (m a) = Inr rotated \<and>
          rotateCCW s =
            Inr (case find (\<lambda>dx. collides (board s) (a\<lparr>m := rotated, x := x a + dx\<rparr>) = Inr False)
                        [0, - 1, 1, - 2, 2] of
                   None \<Rightarrow> s
                 | Some dx \<Rightarrow> s\<lparr>active := Some (a\<lparr>m := rotated, x := x a + dx\<rparr>)\<rparr>)"
    unfolding rotateCCW_def using ccw rotate_find [where rotFn = rotateMatrixCCW, OF len act ccw] by blast
  show ?thesis using p1 p2 p3 p4 p5 by blast
qed


lemma rotateMatrixCW_vertical_I: "rotateMatrixCW [[1], [1], [1], [1]] = Inr [[1, 1, 1, 1]]"
  by code_simp

theorem rotate_correct_witness:
  "int (length (board kick_state)) = ROWS
   \<and> rect [[1], [1], [1], [1]] 4 1
   \<and> transpose_reverse_rows [[1], [1], [1], [1]] = [[1, 1, 1, 1]]
   \<and> rotateCW kick_state =
       Inr (kick_state\<lparr>active :=
              Some \<lparr>x = 6, y = 0, m = [[1, 1, 1, 1]], c = ''#00FFFF'', k = I\<rparr>\<rparr>)"
proof -
  let ?a = "\<lparr>x = 8, y = 0, m = [[1], [1], [1], [1]], c = ''#00FFFF'', k = I\<rparr>"
  have len: "int (length (board kick_state)) = ROWS"
    by (simp add: kick_state_def emptyBoard_def ROWS_def)
  have act: "active kick_state = Some ?a" by (simp add: kick_state_def)
  have r: "rect (m ?a) 4 1" by (simp add: rect_def)
  note inst = rotate_correct [OF len act r]
  have cw: "rotateMatrixCW (m ?a) = Inr (transpose_reverse_rows (m ?a))"
    using inst by simp
  have form: "transpose_reverse_rows [[1], [1], [1], [1]] = [[1, 1, 1, 1]]"
    using cw rotateMatrixCW_vertical_I by simp
  obtain rotated where rot: "rotateMatrixCW (m ?a) = Inr rotated"
    and res: "rotateCW kick_state =
            Inr (case find (\<lambda>dx. collides (board kick_state) (?a\<lparr>m := rotated, x := x ?a + dx\<rparr>) = Inr False)
                        [0, - 1, 1, - 2, 2] of
                   None \<Rightarrow> kick_state
                 | Some dx \<Rightarrow> kick_state\<lparr>active := Some (?a\<lparr>m := rotated, x := x ?a + dx\<rparr>)\<rparr>)"
    using inst by auto
  have rotated: "rotated = [[1, 1, 1, 1]]" using rot rotateMatrixCW_vertical_I by simp
  have f: "find (\<lambda>dx. collides (board kick_state) (?a\<lparr>m := [[1, 1, 1, 1]], x := x ?a + dx\<rparr>) = Inr False)
             [0, - 1, 1, - 2, 2] = Some (- 2)"
    by code_simp
  have "rotateCW kick_state =
       Inr (kick_state\<lparr>active :=
              Some \<lparr>x = 6, y = 0, m = [[1, 1, 1, 1]], c = ''#00FFFF'', k = I\<rparr>\<rparr>)"
    using res [unfolded rotated f] by simp
  then show ?thesis using len r form by simp
qed

section \<open>Rotation against the right wall\<close>

lemma not_filled_at_empty: "\<not> filled_at (emptyBoard ROWS COLS) ny nx"
  by (auto simp: filled_at_def emptyBoard_def truthy_def ROWS_def COLS_def)

lemma collides_horizontal_I:
  assumes "int (length b) = ROWS" and "m p = [[1, 1, 1, 1]]"
  shows "collides b p =
           Inr (cell_hits b (y p) (x p) \<or> cell_hits b (y p) (x p + 1)
                \<or> cell_hits b (y p) (x p + 2) \<or> cell_hits b (y p) (x p + 3))"
proof -
  have "collides b p =
      Inr (\<exists>i<length (m p). \<exists>j<length (m p ! i).
             m p ! i ! j \<noteq> 0 \<and> cell_hits b (y p + int i) (x p + int j))"
    unfolding collides_def by (rule collides_rows_char [OF assms(1)])
  also have "(\<exists>i<length (m p). \<exists>j<length (m p ! i).
             m p ! i ! j \<noteq> 0 \<and> cell_hits b (y p + int i) (x p + int j))
      \<longleftrightarrow> (cell_hits b (y p) (x p) \<or> cell_hits b (y p) (x p + 1)
                \<or> cell_hits b (y p) (x p + 2) \<or> cell_hits b (y p) (x p + 3))"
    unfolding assms(2) by (simp add: Ex_less_Suc2)
  finally show ?thesis .
qed

lemma len_empty: "int (length (emptyBoard ROWS COLS)) = ROWS"
  by (simp add: emptyBoard_def ROWS_def)

text \<open>
  C6, amended. The vertical I piece flush against the right wall (column COLS - 1) of an
  empty grid, rotated clockwise, is left as it is: the rotated matrix is the horizontal
  I, the result follows the kick order (the first of the offsets 0, -1, +1, -2, +2 that
  fits, the state unchanged if none does), and here every offset of the list leaves the
  horizontal I out of bounds, so matrix and position are unchanged. The horizontal I
  fits three columns to the left, which is no offset of the list; from one and from two
  columns further left the rotation does shift the piece there, by the offsets -2
  and -1.
\<close>

theorem rotate_at_right_wall:
  assumes b: "board s = emptyBoard ROWS COLS" and act: "active s = Some a"
    and ma: "m a = [[1], [1], [1], [1]]" and xa: "x a = COLS - 1"
  shows "rotateMatrixCW (m a) = Inr [[1, 1, 1, 1]]
    \<and> rotateCW s =
        Inr (case find (\<lambda>dx. collides (board s) (a\<lparr>m := [[1, 1, 1, 1]], x := x a + dx\<rparr>) = Inr False)
                    [0, - 1, 1, - 2, 2] of
               None \<Rightarrow> s
             | Some dx \<Rightarrow> s\<lparr>active := Some (a\<lparr>m := [[1, 1, 1, 1]], x := x a + dx\<rparr>)\<rparr>)
    \<and> (\<forall>dx \<in> set [0, - 1, 1, - 2, 2].
          collides (board s) (a\<lparr>m := [[1, 1, 1, 1]], x := x a + dx\<rparr>) = Inr True)
    \<and> rotateCW s = Inr s
    \<and> (y a < ROWS \<longrightarrow>
          collides (board s) (a\<lparr>m := [[1, 1, 1, 1]], x := x a - 3\<rparr>) = Inr False
          \<and> rotateCW (s\<lparr>active := Some (a\<lparr>x := x a - 1\<rparr>)\<rparr>)
              = Inr (s\<lparr>active := Some (a\<lparr>m := [[1, 1, 1, 1]], x := x a - 3\<rparr>)\<rparr>)
          \<and> rotateCW (s\<lparr>active := Some (a\<lparr>x := x a - 2\<rparr>)\<rparr>)
              = Inr (s\<lparr>active := Some (a\<lparr>m := [[1, 1, 1, 1]], x := x a - 3\<rparr>)\<rparr>))"
proof -
  have len: "int (length (board s)) = ROWS" using b len_empty by simp
  have cw: "rotateMatrixCW (m a) = Inr [[1, 1, 1, 1]]"
    using ma rotateMatrixCW_vertical_I by simp
  have col: "collides (board s) (a\<lparr>m := [[1, 1, 1, 1]], x := X\<rparr>) =
      Inr (cell_hits (board s) (y a) X \<or> cell_hits (board s) (y a) (X + 1)
           \<or> cell_hits (board s) (y a) (X + 2) \<or> cell_hits (board s) (y a) (X + 3))" for X
    using collides_horizontal_I [OF len, of "a\<lparr>m := [[1, 1, 1, 1]], x := X\<rparr>"] by simp
  have hits: "cell_hits (board s) ny nx \<longleftrightarrow> nx < 0 \<or> nx \<ge> COLS \<or> ny \<ge> ROWS" for ny nx
    by (simp add: cell_hits_def b not_filled_at_empty)
  have rule: "rotateCW s =
        Inr (case find (\<lambda>dx. collides (board s) (a\<lparr>m := [[1, 1, 1, 1]], x := x a + dx\<rparr>) = Inr False)
                    [0, - 1, 1, - 2, 2] of
               None \<Rightarrow> s
             | Some dx \<Rightarrow> s\<lparr>active := Some (a\<lparr>m := [[1, 1, 1, 1]], x := x a + dx\<rparr>)\<rparr>)"
    unfolding rotateCW_def
    by (rule rotate_find [where rotFn = rotateMatrixCW, OF len act cw])
  have all: "\<forall>dx \<in> set [0, - 1, 1, - 2, 2].
          collides (board s) (a\<lparr>m := [[1, 1, 1, 1]], x := x a + dx\<rparr>) = Inr True"
    by (simp add: col hits xa COLS_def)
  have same: "rotateCW s = Inr s"
    using rule all by simp
  have fit: "collides (board s) (a\<lparr>m := [[1, 1, 1, 1]], x := x a - 3\<rparr>) = Inr False"
    if "y a < ROWS"
    using that by (simp add: col hits xa COLS_def)
  have near: "rotateCW (s\<lparr>active := Some (a\<lparr>x := x a - d\<rparr>)\<rparr>)
              = Inr (s\<lparr>active := Some (a\<lparr>m := [[1, 1, 1, 1]], x := x a - 3\<rparr>)\<rparr>)"
    if low: "y a < ROWS" and d: "d = 1 \<or> d = 2" for d
  proof -
    let ?a = "a\<lparr>x := x a - d\<rparr>"
    let ?s = "s\<lparr>active := Some ?a\<rparr>"
    have len': "int (length (board ?s)) = ROWS" using len by simp
    have act': "active ?s = Some ?a" by simp
    have cw': "rotateMatrixCW (m ?a) = Inr [[1, 1, 1, 1]]" using cw by simp
    have r: "rotateCW ?s =
        Inr (case find (\<lambda>dx. collides (board ?s) (?a\<lparr>m := [[1, 1, 1, 1]], x := x ?a + dx\<rparr>) = Inr False)
                    [0, - 1, 1, - 2, 2] of
               None \<Rightarrow> ?s
             | Some dx \<Rightarrow> ?s\<lparr>active := Some (?a\<lparr>m := [[1, 1, 1, 1]], x := x ?a + dx\<rparr>)\<rparr>)"
      unfolding rotateCW_def
      by (rule rotate_find [where rotFn = rotateMatrixCW, OF len' act' cw'])
    have c: "collides (board s) (a\<lparr>m := [[1, 1, 1, 1]], x := X\<rparr>) =
        Inr (X < 0 \<or> X + 3 \<ge> COLS)" for X
      using col [of X] low by (auto simp: hits)
    from d show ?thesis
    proof
      assume "d = 1"
      then show ?thesis unfolding r by (simp add: c xa COLS_def)
    next
      assume "d = 2"
      then show ?thesis unfolding r by (simp add: c xa COLS_def)
    qed
  qed
  show ?thesis using cw rule all same fit near by blast
qed

text \<open>
  The claim as stated fails: the rotation of the piece at the right wall does not end
  with the piece shifted left to fit; it ends with the state it started from.
\<close>

theorem rotate_at_right_wall_counterexample:
  "rotateCW wall_state = Inr wall_state
   \<and> \<not> shifted_left_to_fit wall_state (rotateCW wall_state)"
proof -
  have same: "rotateCW wall_state = Inr wall_state" by code_simp
  have "\<not> shifted_left_to_fit wall_state (Inr wall_state)" by code_simp
  then show ?thesis using same by simp
qed

theorem rotate_at_right_wall_witness:
  "board wall_state = emptyBoard ROWS COLS
   \<and> (\<exists>a. active wall_state = Some a \<and> m a = [[1], [1], [1], [1]] \<and> x a = COLS - 1)
   \<and> rotateCW wall_state = Inr wall_state"
proof -
  let ?a = "\<lparr>x = 9, y = 0, m = [[1], [1], [1], [1]], c = ''#00FFFF'', k = I\<rparr>"
  have b: "board wall_state = emptyBoard ROWS COLS" by (simp add: wall_state_def)
  have act: "active wall_state = Some ?a" by (simp add: wall_state_def)
  have ma: "m ?a = [[1], [1], [1], [1]]" by simp
  have xa: "x ?a = COLS - 1" by (simp add: COLS_def)
  have "rotateCW wall_state = Inr wall_state"
    using rotate_at_right_wall [OF b act ma xa] by blast
  then show ?thesis using b act ma xa by blast
qed

section \<open>Dropping the O piece onto the empty grid\<close>

lemma o_loop:
  "hardDrop_loop (emptyBoard ROWS COLS) (spawn_piece O') 0
     = Some (Inr ((spawn_piece O')\<lparr>y := 18\<rparr>, 18))"
  by code_simp

lemma o_merge:
  "mergePiece (emptyBoard ROWS COLS) ((spawn_piece O')\<lparr>y := 18\<rparr>) = Inr o_board"
  by code_simp

lemma o_clear: "clearLines o_board = Inr (o_board, 0)"
  by code_simp

lemma spawn_free_all:
  "list_all (\<lambda>kd. collides (emptyBoard ROWS COLS) (spawn_piece kd) = Inr False) ORDER"
  by code_simp

lemma spawn_free: "collides (emptyBoard ROWS COLS) (spawn_piece kd) = Inr False"
proof -
  have "kd \<in> set ORDER" using kinds_univ by simp
  then show ?thesis using spawn_free_all by (simp add: list_all_iff)
qed

lemma o_board_cells:
  "bottom_centre_2x2 o_board" "\<not> bottom_left_2x2 o_board"
  by (simp_all add: bottom_centre_2x2_def bottom_left_2x2_def filled_at_def o_board_def
        nth_append truthy_def)

lemma o_board_filled:
  "filled_at o_board ny nx \<longleftrightarrow> (ny = 18 \<or> ny = 19) \<and> (nx = 4 \<or> nx = 5)"
proof -
  have row: "o_board ! i =
      (if i < 18 then replicate 10 None
       else replicate 4 None @ replicate 2 (Some ''#F7D154'') @ replicate 4 None)"
    if "i < 20" for i
    using that by (auto simp: o_board_def nth_append)
  have len: "length o_board = 20" by (simp add: o_board_def)
  show ?thesis
  proof (cases "0 \<le> ny \<and> nat ny < 20")
    case False
    then show ?thesis by (auto simp: filled_at_def len)
  next
    case True
    then show ?thesis
      by (auto simp: filled_at_def len row nth_append truthy_def nth_Cons' split: if_splits)
  qed
qed

text \<open>
  C7, amended. From an empty grid, with the O piece first in a queue that holds more,
  \<open>spawn\<close> puts the O piece at its centred spawn position (column 4) and an immediate
  \<open>hardDrop\<close> returns with the grid filled in exactly the four cells of rows 18-19 and
  columns 4-5, the bottom-centre 2x2 region, and with no line cleared.
\<close>

theorem o_piece_drop:
  assumes b: "board s = emptyBoard ROWS COLS" and q: "queue s = O' # rest" and r: "rest \<noteq> []"
  shows "\<exists>s1 s2. spawn rnd s s = Inr s1 \<and> active s1 = Some (spawn_piece O')
           \<and> board s1 = emptyBoard ROWS COLS
           \<and> hardDrop rnd' s1 = Some (Inr s2)
           \<and> board s2 = o_board
           \<and> (\<forall>ny nx. filled_at (board s2) ny nx
                  \<longleftrightarrow> (ny = 18 \<or> ny = 19) \<and> (nx = 4 \<or> nx = 5))
           \<and> clearLines o_board = Inr (o_board, 0)
           \<and> lines s2 = lines s"
proof -
  let ?s1 = "s\<lparr>queue := rest, canHold := True, active := Some (spawn_piece O')\<rparr>"
  have sp: "spawn rnd s s = Inr ?s1"
    using b q r by (simp add: spawn_def Let_def spawn_free)
  obtain kd rest' where rest: "rest = kd # rest'" using r by (cases rest) auto
  let ?ghost = "(spawn_piece O')\<lparr>y := 18\<rparr>"
  let ?s0 = "?s1\<lparr>active := Some ?ghost, score := score ?s1 + 18 * 2\<rparr>"
  have lp: "hardDrop_loop (board ?s1) (spawn_piece O') 0 = Some (Inr (?ghost, 18))"
    using b o_loop by simp
  have sp2: "\<exists>s2. spawn rnd' ?s1 (?s0\<lparr>board := o_board\<rparr>) = Inr s2
      \<and> board s2 = o_board \<and> lines s2 = lines s"
    using b rest by (simp add: spawn_def Let_def spawn_free)
  then obtain s2 where s2: "spawn rnd' ?s1 (?s0\<lparr>board := o_board\<rparr>) = Inr s2"
    and bs2: "board s2 = o_board" and ls2: "lines s2 = lines s" by blast
  have lk: "lock rnd' ?s1 ?s0 ?ghost = Inr s2"
    using b s2 by (simp add: lock_def o_merge o_clear Let_def)
  have hd: "hardDrop rnd' ?s1 = Some (Inr s2)"
    using lp lk by (simp add: hardDrop_def)
  have cells: "\<forall>ny nx. filled_at (board s2) ny nx
                  \<longleftrightarrow> (ny = 18 \<or> ny = 19) \<and> (nx = 4 \<or> nx = 5)"
    using bs2 o_board_filled by simp
  have "spawn rnd s s = Inr ?s1 \<and> active ?s1 = Some (spawn_piece O')
           \<and> board ?s1 = emptyBoard ROWS COLS
           \<and> hardDrop rnd' ?s1 = Some (Inr s2)
           \<and> board s2 = o_board
           \<and> (\<forall>ny nx. filled_at (board s2) ny nx
                  \<longleftrightarrow> (ny = 18 \<or> ny = 19) \<and> (nx = 4 \<or> nx = 5))
           \<and> clearLines o_board = Inr (o_board, 0)
           \<and> lines s2 = lines s"
    using sp hd bs2 cells o_clear ls2 b by simp
  then show ?thesis by blast
qed

lemma o_start_spawn: "spawn (\<lambda>i. 0) o_start o_start = Inr o_spawned"
  by code_simp

lemma o_spawned_drop: "hardDrop (\<lambda>i. 0) o_spawned = Some (Inr o_dropped)"
  by code_simp

text \<open>
  The claim as stated fails: after the drop the bottom-left 2x2 region is not filled
  (the cell of row 19 and column 0 is empty).
\<close>

theorem o_piece_drop_counterexample:
  "spawn (\<lambda>i. 0) o_start o_start = Inr o_spawned
   \<and> board o_start = emptyBoard ROWS COLS
   \<and> active o_spawned = Some (spawn_piece O')
   \<and> hardDrop (\<lambda>i. 0) o_spawned = Some (Inr o_dropped)
   \<and> \<not> bottom_left_2x2 (board o_dropped)
   \<and> \<not> filled_at (board o_dropped) 19 0"
  using o_start_spawn o_spawned_drop o_board_cells(2)
  by (simp add: o_dropped_def o_spawned_def o_start_def o_board_filled)

theorem o_piece_drop_witness:
  "board o_start = emptyBoard ROWS COLS \<and> queue o_start = O' # [I, T, S, Z, J, L]
   \<and> spawn (\<lambda>i. 0) o_start o_start = Inr o_spawned
   \<and> hardDrop (\<lambda>i. 0) o_spawned = Some (Inr o_dropped)
   \<and> board o_dropped = o_board \<and> bottom_centre_2x2 (board o_dropped)
   \<and> lines o_dropped = lines o_start"
proof -
  have b: "board o_start = emptyBoard ROWS COLS" by (simp add: o_start_def)
  have q: "queue o_start = O' # [I, T, S, Z, J, L]" by (simp add: o_start_def)
  obtain s1 s2 where sp: "spawn (\<lambda>i. 0) o_start o_start = Inr s1"
    and hd: "hardDrop (\<lambda>i. 0) s1 = Some (Inr s2)"
    and bs: "board s2 = o_board" and ls: "lines s2 = lines o_start"
    using o_piece_drop [OF b q, of "\<lambda>i. 0" "\<lambda>i. 0"] by auto
  have s1: "s1 = o_spawned" using sp o_start_spawn by simp
  have s2: "s2 = o_dropped" using hd s1 o_spawned_drop by simp
  show ?thesis
    using b q sp hd bs ls s1 s2 o_board_cells(1) by simp
qed

section \<open>Hold swap and game over\<close>

lemma over_I_collides: "collides (board over_state) (spawn_piece I) = Inr True"
  by code_simp

text \<open>
  C10. With the hold lock not set, an active piece and a held kind, \<open>doHold\<close> always
  returns the swap: the held kind becomes the active piece at its centred spawn position
  with the shape's own matrix, the active kind is stored, the lock is set. No collision
  is tested: \<open>running\<close>, the board and the status are as before, also when the new
  active piece collides with the board, whereas \<open>spawn\<close> of the same kind on a board
  where it collides sets \<open>running\<close> to false.
\<close>

theorem doHold_swap:
  assumes ch: "canHold s" and act: "active s = Some a" and h: "hold s = Some newK"
  shows "doHold rnd s =
           Inr (s\<lparr>hold := Some (k a), active := Some (spawn_piece newK), canHold := False\<rparr>)
    \<and> spawn_piece newK =
        \<lparr>x = (COLS - int (length (fst (TETROMINOES newK) ! 0))) div 2,
         y = - int (getTopOffset (fst (TETROMINOES newK))),
         m = fst (TETROMINOES newK), c = snd (TETROMINOES newK), k = newK\<rparr>
    \<and> (\<exists>s'. doHold rnd s = Inr s' \<and> running s' = running s \<and> board s' = board s
              \<and> status_of s' = status_of s
              \<and> (collides (board s) (spawn_piece newK) = Inr True \<longrightarrow>
                    (\<exists>p. active s' = Some p \<and> collides (board s') p = Inr True)))
    \<and> (collides (board snap) (spawn_piece newK) = Inr True \<and> queue snap = newK # rest \<longrightarrow>
          (\<exists>s'. spawn rnd snap s = Inr s' \<and> \<not> running s'))"
proof -
  let ?s' = "s\<lparr>hold := Some (k a), active := Some (spawn_piece newK), canHold := False\<rparr>"
  have dh: "doHold rnd s = Inr ?s'"
    using ch act h by (simp add: doHold_def)
  have sp: "spawn_piece newK =
        \<lparr>x = (COLS - int (length (fst (TETROMINOES newK) ! 0))) div 2,
         y = - int (getTopOffset (fst (TETROMINOES newK))),
         m = fst (TETROMINOES newK), c = snd (TETROMINOES newK), k = newK\<rparr>"
    by (simp add: spawn_piece_def Let_def)
  have st: "status_of ?s' = status_of s"
    using act by (simp add: status_of_def)
  have keep: "\<exists>s'. doHold rnd s = Inr s' \<and> running s' = running s \<and> board s' = board s
              \<and> status_of s' = status_of s
              \<and> (collides (board s) (spawn_piece newK) = Inr True \<longrightarrow>
                    (\<exists>p. active s' = Some p \<and> collides (board s') p = Inr True))"
    using dh st by (intro exI [of _ ?s']) simp
  have normal: "\<exists>s'. spawn rnd snap s = Inr s' \<and> \<not> running s'"
    if "collides (board snap) (spawn_piece newK) = Inr True \<and> queue snap = newK # rest"
    using that by (simp add: spawn_def Let_def)
  show ?thesis using dh sp keep normal by blast
qed

theorem doHold_swap_witness:
  "canHold over_state \<and> hold over_state = Some I \<and> running over_state
   \<and> doHold (\<lambda>i. 0) over_state =
       Inr (over_state\<lparr>hold := Some T, active := Some (spawn_piece I), canHold := False\<rparr>)
   \<and> collides (board over_state) (spawn_piece I) = Inr True
   \<and> (\<exists>s'. doHold (\<lambda>i. 0) over_state = Inr s' \<and> running s'
          \<and> (\<exists>p. active s' = Some p \<and> collides (board s') p = Inr True))
   \<and> (\<exists>s'. spawn (\<lambda>i. 0) over_state over_state = Inr s' \<and> \<not> running s')"
proof -
  have ch: "canHold over_state" and h: "hold over_state = Some I"
    and run: "running over_state" and q: "queue over_state = I # [S, Z, J, L]"
    and act: "active over_state = Some (spawn_piece T)"
    by (simp_all add: over_state_def)
  have kT: "k (spawn_piece T) = T" by (simp add: spawn_piece_def Let_def)
  note inst = doHold_swap [OF ch act h, of "\<lambda>i. 0" over_state "[S, Z, J, L]"]
  have A: "doHold (\<lambda>i. 0) over_state =
       Inr (over_state\<lparr>hold := Some T, active := Some (spawn_piece I), canHold := False\<rparr>)"
    using inst kT by simp
  have B: "\<exists>s'. doHold (\<lambda>i. 0) over_state = Inr s' \<and> running s'
          \<and> (\<exists>p. active s' = Some p \<and> collides (board s') p = Inr True)"
    using inst over_I_collides run by auto
  have C: "\<exists>s'. spawn (\<lambda>i. 0) over_state over_state = Inr s' \<and> \<not> running s'"
    using inst over_I_collides q by blast
  show ?thesis using ch h run A over_I_collides B C by blast
qed

lemma over_step: "stepDown (\<lambda>i. 0) over_state over_state = Inr over_locked"
  by code_simp

text \<open>
  C5. The code at the failing input: the lock in \<open>over_state\<close> spawns the I piece into
  the stack, which ends the game (\<open>running\<close> is false, the piece stays active); the key
  P then sets \<open>running\<close> again and the status is Running.
\<close>

theorem pause_key_resumes_after_game_over:
  "running over_state
   \<and> stepDown rnd over_state over_state = Inr over_locked
   \<and> \<not> running over_locked
   \<and> active over_locked = Some (spawn_piece I)
   \<and> collides (board over_state) (spawn_piece I) = Inr True
   \<and> collides (board over_locked) (spawn_piece I) = Inr True
   \<and> onKey rnd1 rnd2 rnd3 init KeyP over_locked = Some (Inr (over_locked\<lparr>running := True\<rparr>))
   \<and> status_of (over_locked\<lparr>running := True\<rparr>) = Running"
proof -
  have "stepDown rnd over_state over_state = stepDown (\<lambda>i. 0) over_state over_state"
    by (simp add: stepDown_def lock_def spawn_def over_state_def Let_def
        split: sum.splits prod.splits)
  then have step: "stepDown rnd over_state over_state = Inr over_locked" using over_step by simp
  have c2: "collides (board over_locked) (spawn_piece I) = Inr True" by code_simp
  have key: "onKey rnd1 rnd2 rnd3 init KeyP over_locked
      = Some (Inr (over_locked\<lparr>running := True\<rparr>))"
    by (simp add: onKey_def over_locked_def)
  show ?thesis
    using step c2 key over_I_collides
    by (simp add: over_state_def over_locked_def status_of_def)
qed

section \<open>mergePiece writes the piece and leaves its input alone\<close>

subsection \<open>On the store\<close>

lemma cloneRows_h_ext:
  assumes "\<forall>r \<in> set rs. r < length h \<and> (\<exists>cs. h ! r = Cells cs)"
  shows "cloneRows_h (h @ ext) rs =
           Inr ([length h + length ext..<length h + length ext + length rs],
                h @ ext @ map (\<lambda>r. h ! r) rs)"
  using assms
proof (induction rs arbitrary: ext)
  case Nil
  then show ?case by simp
next
  case (Cons r rs)
  obtain cs where r: "r < length h" and cs: "h ! r = Cells cs"
    using Cons.prems by auto
  have d: "deref (h @ ext) r = Some (Cells cs)"
    using r cs by (simp add: deref_def nth_append)
  have rest: "\<forall>r \<in> set rs. r < length h \<and> (\<exists>cs. h ! r = Cells cs)"
    using Cons.prems by simp
  have rec: "cloneRows_h (h @ ext @ [Cells cs]) rs =
      Inr ([length h + length (ext @ [Cells cs])..<length h + length (ext @ [Cells cs]) + length rs],
           h @ (ext @ [Cells cs]) @ map (\<lambda>r. h ! r) rs)"
    using Cons.IH [OF rest, of "ext @ [Cells cs]"] by simp
  have up: "[length h + length ext..<length h + length ext + length (r # rs)]
      = (length h + length ext) # [length h + length (ext @ [Cells cs])..<length h + length (ext @ [Cells cs]) + length rs]"
    by (simp add: upt_rec)
  show ?case
    unfolding up using d rec cs by (simp add: alloc_def)
qed

lemma is_grid_rows:
  assumes "is_grid h b"
  obtains rs where "b < length h" "h ! b = Outer rs"
    "\<forall>r \<in> set rs. r < length h \<and> (\<exists>cs. h ! r = Cells cs)"
    "map (\<lambda>r. h ! r) rs = map Cells (grid_of h b)"
proof -
  from assms obtain rs where d: "deref h b = Some (Outer rs)"
    and all: "list_all (\<lambda>r. case deref h r of Some (Cells cs) \<Rightarrow> True | _ \<Rightarrow> False) rs"
    by (auto simp: is_grid_def split: option.splits obj.splits)
  have b: "b < length h" "h ! b = Outer rs"
    using d by (auto simp: deref_def split: if_splits)
  have each: "r < length h \<and> (\<exists>cs. h ! r = Cells cs)" if "r \<in> set rs" for r
  proof -
    have "case deref h r of Some (Cells cs) \<Rightarrow> True | _ \<Rightarrow> False"
      using all that by (simp add: list_all_iff)
    then obtain cs where "deref h r = Some (Cells cs)"
      by (auto split: option.splits obj.splits)
    then show ?thesis by (auto simp: deref_def split: if_splits)
  qed
  have g: "grid_of h b = map (\<lambda>r. case deref h r of Some (Cells cs) \<Rightarrow> cs | _ \<Rightarrow> []) rs"
    using d by (simp add: grid_of_def)
  have "h ! r = Cells (case deref h r of Some (Cells cs) \<Rightarrow> cs | _ \<Rightarrow> [])"
    if "r \<in> set rs" for r
    using each [OF that] by (auto simp: deref_def)
  then have "map (\<lambda>r. h ! r) rs = map Cells (grid_of h b)"
    unfolding g by simp
  then show ?thesis using that b each by blast
qed

lemma cloneBoard_h_grid:
  assumes "is_grid h b"
  shows "cloneBoard_h h b =
           Inr (length h + length (grid_of h b), with_grid h (grid_of h b))"
proof -
  obtain rs where b: "b < length h" "h ! b = Outer rs"
    and each: "\<forall>r \<in> set rs. r < length h \<and> (\<exists>cs. h ! r = Cells cs)"
    and rows: "map (\<lambda>r. h ! r) rs = map Cells (grid_of h b)"
    using is_grid_rows [OF assms] by blast
  have n: "length rs = length (grid_of h b)"
    using rows by (metis length_map)
  have cl: "cloneRows_h h rs = Inr ([length h..<length h + length rs], h @ map (\<lambda>r. h ! r) rs)"
    using cloneRows_h_ext [OF each, of "[]"] by simp
  show ?thesis
    using b cl rows n by (simp add: cloneBoard_h_def deref_def alloc_def with_grid_def)
qed

lemma deref_with_grid_outer:
  "deref (with_grid h g) (length h + length g) = Some (Outer [length h..<length h + length g])"
proof -
  have "length (with_grid h g) = length h + length g + 1" by (simp add: with_grid_def)
  moreover have "with_grid h g ! (length h + length g) = Outer [length h..<length h + length g]"
    unfolding with_grid_def
    by (metis append.assoc length_append length_map nth_append_length)
  ultimately show ?thesis by (simp add: deref_def)
qed

lemma deref_with_grid_row:
  "i < length g \<Longrightarrow> deref (with_grid h g) (length h + i) = Some (Cells (g ! i))"
  by (simp add: deref_def with_grid_def nth_append)

lemma with_grid_update:
  assumes "i < length g"
  shows "(with_grid h g)[length h + i := Cells row] = with_grid h (g[i := row])"
  using assms by (simp add: with_grid_def list_update_append map_update)

lemma write_cell_h_sim:
  assumes "length g = n"
  shows "write_cell_h (with_grid h g) (length h + n) ny nx v =
           (case write_cell g ny nx v of Inl e \<Rightarrow> Inl e | Inr g' \<Rightarrow> Inr (with_grid h g'))"
proof (cases "ny < n")
  case True
  have o: "deref (with_grid h g) (length h + n) = Some (Outer [length h..<length h + n])"
    using deref_with_grid_outer [of h g] assms by simp
  have r: "deref (with_grid h g) (length h + ny) = Some (Cells (g ! ny))"
    using deref_with_grid_row [of ny g h] True assms by simp
  show ?thesis
    using True assms o r with_grid_update [of ny g h]
    by (simp add: write_cell_h_def write_cell_def split: sum.splits)
next
  case False
  have o: "deref (with_grid h g) (length h + n) = Some (Outer [length h..<length h + n])"
    using deref_with_grid_outer [of h g] assms by simp
  show ?thesis using False assms o by (simp add: write_cell_h_def write_cell_def)
qed

lemma write_cell_length: "write_cell g ny nx v = Inr g' \<Longrightarrow> length g' = length g"
  by (auto simp: write_cell_def split: if_splits sum.splits)

lemma mergePiece_row_h_sim:
  assumes "length g = n"
  shows "mergePiece_row_h (with_grid h g) (length h + n) col nx ny vs =
           (case mergePiece_row g col nx ny vs of
              Inl e \<Rightarrow> Inl e | Inr g' \<Rightarrow> Inr (with_grid h g'))
         \<and> (\<forall>g'. mergePiece_row g col nx ny vs = Inr g' \<longrightarrow> length g' = n)"
  using assms
proof (induction vs arbitrary: g nx)
  case Nil
  then show ?case by simp
next
  case (Cons v vs)
  show ?case
  proof (cases "v \<noteq> 0 \<and> ny \<ge> 0 \<and> ny < ROWS \<and> nx \<ge> 0 \<and> nx < COLS")
    case True
    note sim = write_cell_h_sim [OF Cons.prems, of h "nat ny" "nat nx" "Some col"]
    show ?thesis
    proof (cases "write_cell g (nat ny) (nat nx) (Some col)")
      case (Inl e)
      then show ?thesis using True sim by simp
    next
      case (Inr g1)
      have l1: "length g1 = n" using write_cell_length [OF Inr] Cons.prems by simp
      show ?thesis using True sim Inr Cons.IH [OF l1, of "nx + 1"] by simp
    qed
  next
    case False
    then show ?thesis using Cons.IH [OF Cons.prems, of "nx + 1"] by auto
  qed
qed

lemma mergePiece_rows_h_sim:
  assumes "length g = n"
  shows "mergePiece_rows_h (with_grid h g) (length h + n) col px ny rs =
           (case mergePiece_rows g col px ny rs of
              Inl e \<Rightarrow> Inl e | Inr g' \<Rightarrow> Inr (with_grid h g'))
         \<and> (\<forall>g'. mergePiece_rows g col px ny rs = Inr g' \<longrightarrow> length g' = n)"
  using assms
proof (induction rs arbitrary: g ny)
  case Nil
  then show ?case by simp
next
  case (Cons r rs)
  note row = mergePiece_row_h_sim [OF Cons.prems, of h col px ny r]
  show ?case
  proof (cases "mergePiece_row g col px ny r")
    case (Inl e)
    then show ?thesis using row by simp
  next
    case (Inr g1)
    have l1: "length g1 = n" using row Inr by simp
    show ?thesis using row Inr Cons.IH [OF l1, of "ny + 1"] by simp
  qed
qed

text \<open>
  \<open>mergePiece\<close> on the store computes \<open>mergePiece\<close> on the grid's value, in new arrays
  appended to the store.
\<close>

lemma mergePiece_h_sim:
  assumes "is_grid h b"
  shows "mergePiece_h h b p =
           (case mergePiece (grid_of h b) p of
              Inl e \<Rightarrow> Inl e
            | Inr g' \<Rightarrow> Inr (length h + length (grid_of h b), with_grid h g'))"
proof -
  let ?g = "grid_of h b"
  have cb: "cloneBoard_h h b = Inr (length h + length ?g, with_grid h ?g)"
    by (rule cloneBoard_h_grid [OF assms])
  have sim: "mergePiece_rows_h (with_grid h ?g) (length h + length ?g) (c p) (x p) (y p) (m p) =
           (case mergePiece_rows ?g (c p) (x p) (y p) (m p) of
              Inl e \<Rightarrow> Inl e | Inr g' \<Rightarrow> Inr (with_grid h g'))"
    using mergePiece_rows_h_sim [of ?g "length ?g" h "c p" "x p" "y p" "m p"] by blast
  have val: "mergePiece ?g p = mergePiece_rows ?g (c p) (x p) (y p) (m p)"
    by (simp add: mergePiece_def cloneBoard_def)
  show ?thesis
  proof (cases "mergePiece_rows ?g (c p) (x p) (y p) (m p)")
    case (Inl e)
    then show ?thesis by (simp add: mergePiece_h_def val cb sim)
  next
    case (Inr g')
    then show ?thesis by (simp add: mergePiece_h_def val cb sim)
  qed
qed

lemma grid_of_with_grid_new:
  "grid_of (with_grid h g) (length h + length g) = g"
proof -
  have "map (\<lambda>r. case deref (with_grid h g) r of Some (Cells cs) \<Rightarrow> cs | _ \<Rightarrow> [])
          [length h..<length h + length g] = g"
  proof (rule nth_equalityI)
    show "length (map (\<lambda>r. case deref (with_grid h g) r of Some (Cells cs) \<Rightarrow> cs | _ \<Rightarrow> [])
          [length h..<length h + length g]) = length g"
      by simp
  next
    fix i
    assume "i < length (map (\<lambda>r. case deref (with_grid h g) r of Some (Cells cs) \<Rightarrow> cs | _ \<Rightarrow> [])
          [length h..<length h + length g])"
    then have i: "i < length g" by simp
    show "map (\<lambda>r. case deref (with_grid h g) r of Some (Cells cs) \<Rightarrow> cs | _ \<Rightarrow> [])
          [length h..<length h + length g] ! i = g ! i"
      using i deref_with_grid_row [OF i, of h] by simp
  qed
  then show ?thesis
    using deref_with_grid_outer [of h g] by (simp add: grid_of_def)
qed

lemma is_grid_with_grid_new:
  "is_grid (with_grid h g) (length h + length g)"
proof -
  have "case deref (with_grid h g) r of Some (Cells cs) \<Rightarrow> True | _ \<Rightarrow> False"
    if "r \<in> set [length h..<length h + length g]" for r
  proof -
    from that have "length h \<le> r" "r < length h + length g" by simp_all
    then have "r = length h + (r - length h)" "r - length h < length g" by linarith+
    then obtain i where "r = length h + i" "i < length g" by blast
    then show ?thesis using deref_with_grid_row [of i g h] by simp
  qed
  then show ?thesis
    using deref_with_grid_outer [of h g] by (simp add: is_grid_def list_all_iff)
qed

lemma grid_of_with_grid_old:
  assumes "is_grid h b"
  shows "grid_of (with_grid h g) b = grid_of h b"
proof -
  obtain rs where b: "b < length h" "h ! b = Outer rs"
    and each: "\<forall>r \<in> set rs. r < length h \<and> (\<exists>cs. h ! r = Cells cs)"
    and rows: "map (\<lambda>r. h ! r) rs = map Cells (grid_of h b)"
    using is_grid_rows [OF assms] by blast
  have old: "deref (with_grid h g) r = deref h r" if "r < length h" for r
    using that by (simp add: deref_def with_grid_def nth_append)
  have d: "deref h b = Some (Outer rs)" using b by (simp add: deref_def)
  have d': "deref (with_grid h g) b = Some (Outer rs)" using old [OF b(1)] d by simp
  have eq: "deref (with_grid h g) r = deref h r" if "r \<in> set rs" for r
    using each that old by blast
  have "map (\<lambda>r. case deref (with_grid h g) r of Some (Cells cs) \<Rightarrow> cs | _ \<Rightarrow> []) rs
      = map (\<lambda>r. case deref h r of Some (Cells cs) \<Rightarrow> cs | _ \<Rightarrow> []) rs"
    by (rule map_cong [OF refl]) (simp only: eq)
  then show ?thesis
    unfolding grid_of_def d d' by simp
qed


text \<open>
  C9. For a store that holds a grid of ROWS rows of COLS cells at an address,
  \<open>mergePiece\<close> returns: the store it leaves agrees with the input store on every
  address that existed (so the input grid, read again, has its contents unchanged), the
  result is a grid at a new address, it is what \<open>mergePiece\<close> on values computes,
  and in it every cell of the grid that an occupied cell of the piece covers holds the
  piece's colour while every other cell holds what the input grid holds there.
\<close>

theorem mergePiece_frame:
  assumes g: "is_grid h b" and wf: "wf_grid (grid_of h b)"
  shows "\<exists>nb h'. mergePiece_h h b p = Inr (nb, h')
           \<and> take (length h) h' = h
           \<and> grid_of h' b = grid_of h b
           \<and> length h \<le> nb \<and> is_grid h' nb
           \<and> mergePiece (grid_of h b) p = Inr (grid_of h' nb)
           \<and> length (grid_of h' nb) = length (grid_of h b)
           \<and> (\<forall>i<length (grid_of h b). \<forall>j<length (grid_of h b ! i).
                  grid_of h' nb ! i ! j =
                    (if (int i, int j) \<in> occupied p then Some (c p) else grid_of h b ! i ! j))"
proof -
  obtain g' where mp: "mergePiece (grid_of h b) p = Inr g'"
    and pt: "painted (\<lambda>i j. (int i, int j) \<in> occupied p) (c p) (grid_of h b) g'"
    using mergePiece_painted [OF wf] by blast
  have len: "length g' = length (grid_of h b)" using pt by (simp add: painted_def)
  let ?nb = "length h + length g'"
  let ?h' = "with_grid h g'"
  have run: "mergePiece_h h b p = Inr (?nb, ?h')"
    using mergePiece_h_sim [OF g, of p] mp len by simp
  have frame: "take (length h) ?h' = h" by (simp add: with_grid_def)
  have old: "grid_of ?h' b = grid_of h b" by (rule grid_of_with_grid_old [OF g])
  have new: "grid_of ?h' ?nb = g'" by (rule grid_of_with_grid_new)
  have isg: "is_grid ?h' ?nb" by (rule is_grid_with_grid_new)
  have cells: "\<forall>i<length (grid_of h b). \<forall>j<length (grid_of h b ! i).
                  g' ! i ! j =
                    (if (int i, int j) \<in> occupied p then Some (c p) else grid_of h b ! i ! j)"
    using pt by (simp add: painted_def)
  have "mergePiece_h h b p = Inr (?nb, ?h')
           \<and> take (length h) ?h' = h
           \<and> grid_of ?h' b = grid_of h b
           \<and> length h \<le> ?nb \<and> is_grid ?h' ?nb
           \<and> mergePiece (grid_of h b) p = Inr (grid_of ?h' ?nb)
           \<and> length (grid_of ?h' ?nb) = length (grid_of h b)
           \<and> (\<forall>i<length (grid_of h b). \<forall>j<length (grid_of h b ! i).
                  grid_of ?h' ?nb ! i ! j =
                    (if (int i, int j) \<in> occupied p then Some (c p) else grid_of h b ! i ! j))"
    unfolding new using run frame old isg mp len cells by simp
  then show ?thesis by blast
qed

lemma empty_store_grid:
  "is_grid empty_store 20" "grid_of empty_store 20 = emptyBoard ROWS COLS"
  by code_simp+

lemma empty_store_merge:
  "mergePiece_h empty_store 20 ((spawn_piece O')\<lparr>y := 18\<rparr>)
     = Inr (41, empty_store @ map Cells o_board @ [Outer [21..<41]])"
  by code_simp

theorem mergePiece_frame_witness:
  "is_grid empty_store 20 \<and> wf_grid (grid_of empty_store 20)
   \<and> (\<exists>nb h'. mergePiece_h empty_store 20 ((spawn_piece O')\<lparr>y := 18\<rparr>) = Inr (nb, h')
         \<and> grid_of h' 20 = emptyBoard ROWS COLS
         \<and> grid_of h' nb = o_board)"
proof -
  have g: "is_grid empty_store 20" by (rule empty_store_grid(1))
  have wf: "wf_grid (grid_of empty_store 20)"
    unfolding empty_store_grid(2)
    by (simp add: wf_grid_def emptyBoard_def ROWS_def COLS_def list_all_iff)
  obtain nb h' where run: "mergePiece_h empty_store 20 ((spawn_piece O')\<lparr>y := 18\<rparr>) = Inr (nb, h')"
    and old: "grid_of h' 20 = grid_of empty_store 20"
    and val: "mergePiece (grid_of empty_store 20) ((spawn_piece O')\<lparr>y := 18\<rparr>) = Inr (grid_of h' nb)"
    using mergePiece_frame [OF g wf, of "(spawn_piece O')\<lparr>y := 18\<rparr>"] by blast
  have "grid_of h' nb = o_board"
    using val o_merge by (simp add: empty_store_grid(2))
  then show ?thesis using g wf run old by (auto simp: empty_store_grid(2))
qed


end
